theory Spec2Isabelle
  imports Complex_Main "HOL-Library.Char_ord" "HOL-Library.List_Lexorder" "HOL-Library.Product_Lexorder"
begin

section \<open>Status values\<close>

text \<open>
  \<open>Status\<close> (declared in the repository's type header, which \<open>service.cc\<close> only uses) carries
  a code, a message and a noun. \<open>service.cc\<close> builds statuses with \<open>Status::OK()\<close>,
  \<open>Status::Invalid(...)\<close>, \<open>Status::Failure(...)\<close> and \<open>Status::IOError(...)\<close> and inspects
  them with \<open>ok()\<close> and \<open>bad()\<close>; \<open>NOT_FOUND\<close> stands for the lookup failures of the metadata
  collaborator. An absent message or noun is the empty string.
\<close>

datatype StatusCode = OK | INVALID | FAILURE | IO_ERROR | NOT_FOUND

record Status =
  code :: StatusCode
  msg :: string
  noun :: string

definition ok :: "Status \<Rightarrow> bool" where
  "ok st = (code st = OK)"

definition bad :: "Status \<Rightarrow> bool" where
  "bad st = (\<not> ok st)"

definition Status_OK :: Status where
  "Status_OK = \<lparr>code = OK, msg = [], noun = []\<rparr>"

definition Status_Invalid :: "string \<Rightarrow> string \<Rightarrow> Status" where
  "Status_Invalid m n = \<lparr>code = INVALID, msg = m, noun = n\<rparr>"

definition Status_Failure :: "string \<Rightarrow> string \<Rightarrow> Status" where
  "Status_Failure m n = \<lparr>code = FAILURE, msg = m, noun = n\<rparr>"

definition Status_IOError :: "string \<Rightarrow> string \<Rightarrow> Status" where
  "Status_IOError m n = \<lparr>code = IO_ERROR, msg = m, noun = n\<rparr>"

section \<open>Ranges, alleles and the discovered-allele map\<close>

text \<open>
  A \<open>range\<close> is the triple (rid, beg, end) and an \<open>allele\<close> is a range with its DNA string; both
  are ordered lexicographically, the string bytewise, which is the order \<open>std::map\<close> and
  \<open>std::set\<close> iterate in.
\<close>

type_synonym range = "int \<times> int \<times> int"

type_synonym allele = "range \<times> string"

record discovered_allele_info =
  is_ref :: bool
  observation_count :: real

text \<open>
  \<open>discovered_alleles\<close> is \<open>std::map<allele, discovered_allele_info>\<close>: an association list
  kept in ascending key order. An observation count is a real number; the counts that the
  tally loop produces are 32-bit floats, and that loop is modelled with float rounding
  (\<open>float_plus_one\<close> below).
\<close>

type_synonym discovered_alleles = "(allele \<times> discovered_allele_info) list"

text \<open>\<open>std::map::insert\<close>: a key that is already present keeps its old value.\<close>

fun map_insert :: "('k::linorder) \<times> 'v \<Rightarrow> ('k \<times> 'v) list \<Rightarrow> ('k \<times> 'v) list" where
  "map_insert (k, v) [] = [(k, v)]"
| "map_insert (k, v) ((k', v') # m) =
     (if k < k' then (k, v) # (k', v') # m
      else if k = k' then (k', v') # m
      else (k', v') # map_insert (k, v) m)"

text \<open>
  Modelled from the spec: \<open>merge_discovered_alleles\<close> is defined in the repository's allele
  module, which is not among the sources. The spec's merge rule: for each allele of the source
  set, if it is absent from the destination it is inserted with its info unchanged; if it is
  present the observation counts are summed. The pairwise step is permissive (it rejects
  nothing, so its status is always OK) and the destination keeps its own reference flag.
\<close>

fun merge_entry :: "allele \<times> discovered_allele_info \<Rightarrow> discovered_alleles \<Rightarrow> discovered_alleles" where
  "merge_entry (k, ai) [] = [(k, ai)]"
| "merge_entry (k, ai) ((k', ai') # m) =
     (if k < k' then (k, ai) # (k', ai') # m
      else if k = k'
        then (k', ai'\<lparr>observation_count := observation_count ai' + observation_count ai\<rparr>) # m
      else (k', ai') # merge_entry (k, ai) m)"

definition merge_discovered_alleles ::
  "discovered_alleles \<Rightarrow> discovered_alleles \<Rightarrow> Status \<times> discovered_alleles" where
  "merge_discovered_alleles src dest = (Status_OK, foldl (\<lambda>d e. merge_entry e d) dest src)"

section \<open>Allele discovery\<close>

text \<open>\<open>::toupper\<close> in the C locale: the letters a to z move to A to Z, every other byte stays.\<close>

definition toupper :: "char \<Rightarrow> char" where
  "toupper ch = (if CHR ''a'' \<le> ch \<and> ch \<le> CHR ''z''
                 then char_of (of_char ch - (32::nat)) else ch)"

definition is_dna :: "string \<Rightarrow> bool" where
  "is_dna str = list_all (\<lambda>ch. ch = CHR ''A'' \<or> ch = CHR ''C'' \<or> ch = CHR ''G'' \<or> ch = CHR ''T'') str"

text \<open>
  A BCF record as \<open>discover_alleles\<close> reads it: its range (\<open>range rng(record)\<close>), allele 0
  (the reference, \<open>d.allele[0]\<close>), the alternative alleles \<open>d.allele[1..n_allele-1]\<close>, and the
  values \<open>bcf_get_genotypes\<close> yields for it (none when that call reports an error, since the
  loop bound \<open>ngt\<close> is then negative).
\<close>

record bcf1 =
  rec_range :: range
  ref_allele :: string
  alt_alleles :: "string list"
  genotypes :: "int list"

definition n_allele :: "bcf1 \<Rightarrow> nat" where
  "n_allele r = Suc (length (alt_alleles r))"

text \<open>
  htslib's encoding of 32-bit genotype values: \<open>bcf_int32_vector_end\<close> is \<open>INT32_MIN + 1\<close> and
  \<open>bcf_gt_allele(v)\<close> is \<open>(v >> 1) - 1\<close>; the arithmetic shift is the floor division by two, and
  the result stays within 32 bits for every 32-bit \<open>v\<close>.
\<close>

definition bcf_int32_vector_end :: int where
  "bcf_int32_vector_end = - 2147483647"

definition bcf_gt_allele :: "int \<Rightarrow> int" where
  "bcf_gt_allele v = v div 2 - 1"

text \<open>
  \<open>obs_counts[al_i] += 1.0\<close> on a \<open>vector<float>\<close>. The entries start at \<open>0.0\<close> and change
  only by this statement, so they are whole numbers. A 32-bit float holds every whole number
  up to \<open>2^24 = 16777216\<close> exactly; \<open>2^24 + 1\<close> is not a float, and the sum rounds (to
  nearest, ties to even) back to \<open>2^24\<close>: from there on the entry no longer grows.
\<close>

definition float_plus_one :: "real \<Rightarrow> real" where
  "float_plus_one x = (if x < 16777216 then x + 1 else x)"

fun count_obs :: "nat \<Rightarrow> int list \<Rightarrow> real list \<Rightarrow> real list" where
  "count_obs n [] obs_counts = obs_counts"
| "count_obs n (g # gt) obs_counts =
     count_obs n gt
       (if g \<noteq> bcf_int32_vector_end
        then (let al_i = bcf_gt_allele g
              in if al_i \<ge> 0 \<and> al_i < int n
                 then obs_counts[nat al_i := float_plus_one (obs_counts ! nat al_i)]
                 else obs_counts)
        else obs_counts)"

text \<open>\<open>obs_counts\<close> of a record: \<open>n_allele\<close> zeros, then the loop over its genotype values.\<close>

definition obs_counts_of :: "bcf1 \<Rightarrow> real list" where
  "obs_counts_of record =
     count_obs (n_allele record) (genotypes record) (replicate (n_allele record) 0)"

text \<open>The loop over the alternative alleles, \<open>i\<close> running from 1; the state is \<open>(dsals, any_alt)\<close>.\<close>

fun alt_loop :: "range \<Rightarrow> real list \<Rightarrow> string list \<Rightarrow> nat \<Rightarrow> discovered_alleles \<times> bool
    \<Rightarrow> discovered_alleles \<times> bool" where
  "alt_loop rng obs_counts [] i (dsals, any_alt) = (dsals, any_alt)"
| "alt_loop rng obs_counts (al # als) i (dsals, any_alt) =
     (let aldna = map toupper al
      in if length aldna > 0 \<and> is_dna aldna
         then alt_loop rng obs_counts als (Suc i)
                (map_insert ((rng, aldna), \<lparr>is_ref = False, observation_count = obs_counts ! i\<rparr>) dsals,
                 True)
         else alt_loop rng obs_counts als (Suc i) (dsals, any_alt))"

text \<open>
  The body of the loop over a dataset's records. \<open>posstr\<close> is \<open>pos.str()\<close>, the text of the
  requested range. The result is the per-dataset map \<open>dsals\<close> after the record, or the status
  that \<open>discover_alleles\<close> returns at once.
\<close>

definition process_record :: "string \<Rightarrow> string \<Rightarrow> bcf1 \<Rightarrow> discovered_alleles
    \<Rightarrow> Status + discovered_alleles" where
  "process_record dataset posstr record dsals =
     (let rng = rec_range record;
          obs_counts = obs_counts_of record;
          (dsals1, any_alt) = alt_loop rng obs_counts (alt_alleles record) 1 (dsals, False);
          refdna = map toupper (ref_allele record)
      in if length refdna > 0 \<and> is_dna refdna
         then Inr (if any_alt
                   then map_insert ((rng, refdna),
                          \<lparr>is_ref = True, observation_count = obs_counts ! 0\<rparr>) dsals1
                   else dsals1)
         else Inl (Status_Invalid ''invalid reference allele''
                     (dataset @ '' '' @ refdna @ ''@'' @ posstr)))"

fun records_loop :: "string \<Rightarrow> string \<Rightarrow> bcf1 list \<Rightarrow> discovered_alleles
    \<Rightarrow> Status + discovered_alleles" where
  "records_loop dataset posstr [] dsals = Inr dsals"
| "records_loop dataset posstr (record # records) dsals =
     (case process_record dataset posstr record dsals of
        Inl s \<Rightarrow> Inl s
      | Inr dsals' \<Rightarrow> records_loop dataset posstr records dsals')"

text \<open>
  The collaborators of \<open>Service\<close>: the metadata cache resolves a sample set to its samples and
  datasets (each a \<open>std::set\<close>, given here as the sequence of its elements in iteration order),
  the storage layer fetches the records of a dataset in a range, and a range prints itself,
  alone (\<open>str()\<close>) or with the contig names (\<open>str(contigs)\<close>).
\<close>

record service =
  sampleset_datasets :: "string \<Rightarrow> Status \<times> string list \<times> string list"
  dataset_range_and_header :: "string \<Rightarrow> range \<Rightarrow> Status \<times> bcf1 list"
  range_str :: "range \<Rightarrow> string"
  range_str_contigs :: "range \<Rightarrow> string"
  contigs :: "(string \<times> nat) list"

fun datasets_loop :: "service \<Rightarrow> range \<Rightarrow> string list \<Rightarrow> discovered_alleles
    \<Rightarrow> Status \<times> discovered_alleles" where
  "datasets_loop svc pos [] ans = (Status_OK, ans)"
| "datasets_loop svc pos (dataset # datasets) ans =
     (case dataset_range_and_header svc dataset pos of
        (s, records) \<Rightarrow>
          if bad s then (s, ans)
          else (case records_loop dataset (range_str svc pos) records [] of
                  Inl s1 \<Rightarrow> (s1, ans)
                | Inr dsals \<Rightarrow>
                    (case merge_discovered_alleles dsals ans of
                       (s2, ans') \<Rightarrow>
                         if bad s2 then (s2, ans')
                         else datasets_loop svc pos datasets ans')))"

text \<open>
  The ex post facto check. \<open>refcheck\<close> is the multimap from range to (dna, is_ref), filled in
  the iteration order of \<open>ans\<close>; \<open>equal_range\<close> yields the entries of one range in that order.
  \<open>ranges\<close> is a \<open>std::set\<close>, visited in ascending order.
\<close>

definition refcheck_of :: "discovered_alleles \<Rightarrow> (range \<times> string \<times> bool) list" where
  "refcheck_of ans = map (\<lambda>(al, ai). (fst al, snd al, is_ref ai)) ans"

definition ranges_of :: "discovered_alleles \<Rightarrow> range list" where
  "ranges_of ans = sorted_list_of_set (set (map (\<lambda>(al, ai). fst al) ans))"

definition refs_at :: "(range \<times> string \<times> bool) list \<Rightarrow> range \<Rightarrow> string list" where
  "refs_at refcheck rng =
     map (\<lambda>(r, dna, isref). dna) (filter (\<lambda>(r, dna, isref). r = rng \<and> isref) refcheck)"

fun check_loop :: "(range \<Rightarrow> string) \<Rightarrow> (range \<times> string \<times> bool) list \<Rightarrow> range list \<Rightarrow> Status" where
  "check_loop str refcheck [] = Status_OK"
| "check_loop str refcheck (rng # ranges) =
     (let refs = refs_at refcheck rng
      in if length refs > 1
         then Status_Invalid ''data sets contain inconsistent reference alleles''
                (str rng @ concat (map (\<lambda>r. CHR '' '' # r) refs))
         else if length refs = 0
         then Status_Invalid ''data sets contain no reference allele'' (str rng)
         else check_loop str refcheck ranges)"

definition check_refs :: "(range \<Rightarrow> string) \<Rightarrow> discovered_alleles \<Rightarrow> Status" where
  "check_refs str ans = check_loop str (refcheck_of ans) (ranges_of ans)"

text \<open>
  \<open>discover_alleles\<close> with its out-parameter \<open>ans\<close> made explicit: the function takes the
  caller's map and returns the status together with the map the caller sees afterwards.
\<close>

definition discover_alleles :: "service \<Rightarrow> string \<Rightarrow> range \<Rightarrow> discovered_alleles
    \<Rightarrow> Status \<times> discovered_alleles" where
  "discover_alleles svc sampleset pos ans =
     (case sampleset_datasets svc sampleset of
        (s, samples, datasets) \<Rightarrow>
          if bad s then (s, ans)
          else (case datasets_loop svc pos datasets [] of
                  (s1, ans') \<Rightarrow>
                    if bad s1 then (s1, ans')
                    else (check_refs (range_str_contigs svc) ans', ans')))"

section \<open>Ordered concurrent genotyping\<close>

text \<open>
  What \<open>genotype_sites\<close> calls outside this file: the htslib header and file functions, each
  reduced to whether it succeeds, and the per-site genotyper. \<open>genotype_site io i\<close> is the
  outcome of \<open>genotype_site(cfg, data, sites[i], ...)\<close>: the status it returns and the record it
  leaves in \<open>bcf\<close>. \<open>bcf_write_ok io i\<close> tells whether \<open>bcf_write\<close> of the record of site
  \<open>i\<close> succeeds.
\<close>

record bcf_io =
  bcf_hdr_append_ok :: "string \<Rightarrow> bool"
  bcf_hdr_add_sample_ok :: "string \<Rightarrow> bool"
  bcf_hdr_sync_ok :: bool
  bcf_open_ok :: bool
  bcf_hdr_write_ok :: bool
  genotype_site :: "nat \<Rightarrow> Status \<times> bcf1 option"
  bcf_write_ok :: "nat \<Rightarrow> bool"
  bcf_close_ok :: bool

text \<open>Decimal text of a \<open>size_t\<close>, as \<open>operator<<\<close> prints a contig length.\<close>

fun decimal :: "nat \<Rightarrow> string" where
  "decimal n = (if n < 10 then [char_of (48 + n)]
                else decimal (n div 10) @ [char_of (48 + n mod 10)])"

definition hdrGT :: string where
  \<open>hdrGT = ''##FORMAT=<ID=GT,Number=1,Type=String,Description="Genotype">''\<close>

fun append_contigs :: "bcf_io \<Rightarrow> (string \<times> nat) list \<Rightarrow> Status option" where
  "append_contigs io [] = None"
| "append_contigs io (ctg # ctgs) =
     (let stm = ''##contig=<ID='' @ fst ctg @ '',length='' @ decimal (snd ctg) @ ''>''
      in if \<not> bcf_hdr_append_ok io stm then Some (Status_Failure ''bcf_hdr_append'' stm)
         else append_contigs io ctgs)"

fun add_samples :: "bcf_io \<Rightarrow> string list \<Rightarrow> Status option" where
  "add_samples io [] = None"
| "add_samples io (sample # samples) =
     (if \<not> bcf_hdr_add_sample_ok io sample then Some (Status_Failure ''bcf_hdr_add_sample'' sample)
      else add_samples io samples)"

text \<open>
  Header construction and the opening of the output file, up to the point where the tasks are
  enqueued: the status of the first step that fails, if one does.
\<close>

definition open_output :: "service \<Rightarrow> bcf_io \<Rightarrow> string list \<Rightarrow> string \<Rightarrow> Status option" where
  "open_output svc io samples filename =
     (if \<not> bcf_hdr_append_ok io hdrGT then Some (Status_Failure ''bcf_hdr_append'' hdrGT)
      else case append_contigs io (contigs svc) of
        Some e \<Rightarrow> Some e
      | None \<Rightarrow>
         (case add_samples io samples of
            Some e \<Rightarrow> Some e
          | None \<Rightarrow>
             if \<not> bcf_hdr_sync_ok io then Some (Status_Failure ''bcf_hdr_sync'' [])
             else if \<not> bcf_open_ok io
               then Some (Status_IOError ''failed to open BCF file for writing'' filename)
             else if \<not> bcf_hdr_write_ok io then Some (Status_IOError ''bcf_hdr_write'' filename)
             else None))"

text \<open>
  A task of the thread pool, seen through its future: not yet started, running inside
  \<open>genotype_site\<close>, returned at once because it read \<open>abort\<close> as set, or returned from
  \<open>genotype_site\<close> with a status.
\<close>

datatype task = Pending | Running | Cancelled | Finished Status

text \<open>\<open>statuses[i].get()\<close> blocks until the task has returned; a cancelled task returned \<open>Status::Invalid()\<close>.\<close>

fun future_get :: "task \<Rightarrow> Status option" where
  "future_get Pending = None"
| "future_get Running = None"
| "future_get Cancelled = Some (Status_Invalid [] [])"
| "future_get (Finished ls) = Some ls"

text \<open>
  The shared state while the tasks run and the main thread drains them: the futures, the
  \<open>results\<close> vector, the atomic flag \<open>abort\<close>, the recorded status \<open>s\<close>, the index \<open>i\<close> of the
  drain loop and the records written to the output file so far.
\<close>

record pipeline =
  statuses :: "task list"
  results :: "bcf1 option list"
  abort :: bool
  status_s :: Status
  drain_i :: nat
  outfile :: "bcf1 list"

text \<open>
  The interleavings of the worker threads and the drain loop are sequences of events. A task
  touches shared state when it starts (it reads \<open>abort\<close>) and when it returns (it stores its
  record in its own slot and fulfils its future); one iteration of the drain loop is one
  event, enabled once task \<open>i\<close> has returned. \<open>step\<close> is \<open>None\<close> where the event cannot happen:
  a task starts once and finishes only after it started, \<open>get()\<close> blocks on an unfinished task,
  and \<open>assert(bcf_i)\<close> stops the program when an OK task left no record.
\<close>

datatype event = Start nat | Finish nat | Drain

fun step :: "bcf_io \<Rightarrow> string \<Rightarrow> event \<Rightarrow> pipeline \<Rightarrow> pipeline option" where
  "step io filename (Start i) p =
     (if i < length (statuses p) \<and> statuses p ! i = Pending
      then Some (p\<lparr>statuses := (statuses p)[i := if abort p then Cancelled else Running]\<rparr>)
      else None)"
| "step io filename (Finish i) p =
     (if i < length (statuses p) \<and> statuses p ! i = Running
      then (case genotype_site io i of
              (ls, bcf) \<Rightarrow>
                if bad ls then Some (p\<lparr>statuses := (statuses p)[i := Finished ls]\<rparr>)
                else Some (p\<lparr>statuses := (statuses p)[i := Finished ls],
                             results := (results p)[i := bcf]\<rparr>))
      else None)"
| "step io filename Drain p =
     (let i = drain_i p
      in if i < length (statuses p)
         then (case future_get (statuses p ! i) of
                 None \<Rightarrow> None
               | Some s_i \<Rightarrow>
                   (let bcf_i = results p ! i;
                        p1 = p\<lparr>results := (results p)[i := None], drain_i := Suc i\<rparr>
                    in if ok (status_s p) \<and> ok s_i
                       then (case bcf_i of
                               None \<Rightarrow> None
                             | Some r \<Rightarrow>
                                 if bcf_write_ok io i then Some (p1\<lparr>outfile := outfile p @ [r]\<rparr>)
                                 else Some (p1\<lparr>status_s := Status_IOError ''bcf_write'' filename\<rparr>))
                       else if ok (status_s p) \<and> bad s_i
                       then Some (p1\<lparr>status_s := s_i, abort := True\<rparr>)
                       else Some p1))
         else None)"

fun run :: "bcf_io \<Rightarrow> string \<Rightarrow> event list \<Rightarrow> pipeline \<Rightarrow> pipeline option" where
  "run io filename [] p = Some p"
| "run io filename (e # es) p =
     (case step io filename e p of None \<Rightarrow> None | Some p' \<Rightarrow> run io filename es p')"

definition init :: "nat \<Rightarrow> pipeline" where
  "init n = \<lparr>statuses = replicate n Pending, results = replicate n None, abort = False,
             status_s = Status_OK, drain_i = 0, outfile = []\<rparr>"

text \<open>
  \<open>genotype_sites\<close> for \<open>nsites\<close> sites under the interleaving \<open>sched\<close>: the returned status and
  the records in the output file. The result is \<open>None\<close> when \<open>sched\<close> is not an execution that
  takes the drain loop through all sites.
\<close>

definition genotype_sites :: "service \<Rightarrow> bcf_io \<Rightarrow> string \<Rightarrow> nat \<Rightarrow> string \<Rightarrow> event list
    \<Rightarrow> (Status \<times> bcf1 list) option" where
  "genotype_sites svc io sampleset nsites filename sched =
     (case sampleset_datasets svc sampleset of
        (s0, samples, datasets) \<Rightarrow>
          if bad s0 then Some (s0, [])
          else (case open_output svc io samples filename of
                  Some e \<Rightarrow> Some (e, [])
                | None \<Rightarrow>
                   (case run io filename sched (init nsites) of
                      None \<Rightarrow> None
                    | Some p \<Rightarrow>
                        if drain_i p < nsites then None
                        else if bad (status_s p) then Some (status_s p, outfile p)
                        else Some (if bcf_close_ok io then Status_OK
                                   else Status_IOError ''bcf_close'' filename,
                                   outfile p))))"

section \<open>Notions used in the statements\<close>

text \<open>The test both loops of \<open>discover_alleles\<close> apply to an uppercased allele: \<open>[ACGT]+\<close>.\<close>

definition valid_dna :: "string \<Rightarrow> bool" where
  "valid_dna str = (length str > 0 \<and> is_dna str)"

text \<open>
  The observation count a map holds for an allele (0 when the allele is absent), and the
  per-dataset map \<open>dsals\<close> that the loop over the records of a dataset builds.
\<close>

definition count_of :: "discovered_alleles \<Rightarrow> allele \<Rightarrow> real" where
  "count_of m k = (case map_of m k of None \<Rightarrow> 0 | Some ai \<Rightarrow> observation_count ai)"

definition dataset_alleles :: "service \<Rightarrow> range \<Rightarrow> string \<Rightarrow> discovered_alleles" where
  "dataset_alleles svc pos d =
     (case records_loop d (range_str svc pos) (snd (dataset_range_and_header svc d pos)) [] of
        Inl e \<Rightarrow> []
      | Inr dsals \<Rightarrow> dsals)"

text \<open>
  Invariants of the genotyping pipeline. \<open>written_prefix io p m\<close>: the tasks of the sites below
  \<open>m\<close> returned OK from the genotyper, their writes succeeded, and the output file holds
  exactly their records, in site order. \<open>first_error io filename p m\<close>: site \<open>m\<close> is where the
  drain loop recorded its status, either the failure of task \<open>m\<close> (then \<open>abort\<close> is set) or
  the failed write of its record (then \<open>abort\<close> is clear).
\<close>

definition written_prefix :: "bcf_io \<Rightarrow> pipeline \<Rightarrow> nat \<Rightarrow> bool" where
  "written_prefix io p m =
     ((\<forall>j<m. statuses p ! j = Finished (fst (genotype_site io j)) \<and> ok (fst (genotype_site io j))
              \<and> bcf_write_ok io j)
      \<and> map Some (outfile p) = map (\<lambda>j. snd (genotype_site io j)) [0..<m])"

definition first_error :: "bcf_io \<Rightarrow> string \<Rightarrow> pipeline \<Rightarrow> nat \<Rightarrow> bool" where
  "first_error io filename p m =
     (written_prefix io p m \<and> statuses p ! m = Finished (fst (genotype_site io m))
      \<and> (if bad (fst (genotype_site io m))
         then status_s p = fst (genotype_site io m) \<and> abort p
         else \<not> bcf_write_ok io m \<and> status_s p = Status_IOError ''bcf_write'' filename \<and> \<not> abort p))"

definition inv_tasks :: "bcf_io \<Rightarrow> nat \<Rightarrow> pipeline \<Rightarrow> bool" where
  "inv_tasks io n p =
     (length (statuses p) = n \<and> length (results p) = n \<and> drain_i p \<le> n
      \<and> (\<forall>i<n. statuses p ! i = Cancelled \<longrightarrow> abort p)
      \<and> (\<forall>i<n. \<forall>ls. statuses p ! i = Finished ls \<longrightarrow>
            ls = fst (genotype_site io i)
            \<and> (drain_i p \<le> i \<longrightarrow> ok ls \<longrightarrow> results p ! i = snd (genotype_site io i)))
      \<and> (\<forall>i<drain_i p. future_get (statuses p ! i) \<noteq> None))"

definition inv_drain :: "bcf_io \<Rightarrow> string \<Rightarrow> pipeline \<Rightarrow> bool" where
  "inv_drain io filename p =
     ((abort p \<longrightarrow> bad (status_s p))
      \<and> (ok (status_s p) \<longrightarrow> written_prefix io p (drain_i p))
      \<and> (bad (status_s p) \<longrightarrow> (\<exists>m<drain_i p. first_error io filename p m)))"

definition pipe_inv :: "bcf_io \<Rightarrow> string \<Rightarrow> nat \<Rightarrow> pipeline \<Rightarrow> bool" where
  "pipe_inv io filename n p = (inv_tasks io n p \<and> inv_drain io filename p)"

text \<open>
  The eager schedule starts every task, lets every task return and then runs the drain loop;
  the three predicates describe the states in between: tasks below \<open>k\<close> started, tasks below
  \<open>k\<close> returned, and sites below \<open>k\<close> drained.
\<close>

definition eager_schedule :: "nat \<Rightarrow> event list" where
  "eager_schedule n = map Start [0..<n] @ map Finish [0..<n] @ map (\<lambda>i. Drain) [0..<n]"

definition all_pending_from :: "nat \<Rightarrow> nat \<Rightarrow> pipeline \<Rightarrow> bool" where
  "all_pending_from n k p =
     (length (statuses p) = n \<and> length (results p) = n \<and> drain_i p = 0 \<and> \<not> abort p
      \<and> (\<forall>j<k. statuses p ! j = Running) \<and> (\<forall>j. k \<le> j \<and> j < n \<longrightarrow> statuses p ! j = Pending))"

definition all_running_from :: "bcf_io \<Rightarrow> nat \<Rightarrow> nat \<Rightarrow> pipeline \<Rightarrow> bool" where
  "all_running_from io n k p =
     (length (statuses p) = n \<and> length (results p) = n \<and> drain_i p = 0
      \<and> (\<forall>j<k. statuses p ! j = Finished (fst (genotype_site io j))
               \<and> (ok (fst (genotype_site io j)) \<longrightarrow> results p ! j = snd (genotype_site io j)))
      \<and> (\<forall>j. k \<le> j \<and> j < n \<longrightarrow> statuses p ! j = Running))"

definition all_returned_from :: "bcf_io \<Rightarrow> nat \<Rightarrow> nat \<Rightarrow> pipeline \<Rightarrow> bool" where
  "all_returned_from io n k p =
     (length (statuses p) = n \<and> length (results p) = n \<and> drain_i p = k
      \<and> (\<forall>j. k \<le> j \<and> j < n \<longrightarrow> statuses p ! j = Finished (fst (genotype_site io j))
               \<and> (ok (fst (genotype_site io j)) \<longrightarrow> results p ! j \<noteq> None)))"

section \<open>Concrete inputs\<close>

text \<open>
  A small service for the examples: the sample set \<open>cohort\<close> resolves to two samples and the
  given datasets, storage answers through \<open>fetch\<close>, and a range prints as
  \<open><rid>:beg+1-end\<close>.
\<close>

definition ex_range_str :: "range \<Rightarrow> string" where
  "ex_range_str rng =
     (case rng of (rid, beg, e) \<Rightarrow>
        ''<'' @ decimal (nat rid) @ ''>:'' @ decimal (nat (beg + 1)) @ ''-'' @ decimal (nat e))"

definition ex_service :: "string list \<Rightarrow> (string \<Rightarrow> Status \<times> bcf1 list) \<Rightarrow> service" where
  "ex_service datasets fetch =
     \<lparr>sampleset_datasets =
        (\<lambda>sampleset. if sampleset = ''cohort''
           then (Status_OK, [''sample1'', ''sample2''], datasets)
           else (\<lparr>code = NOT_FOUND, msg = ''unknown sample set'', noun = sampleset\<rparr>, [], [])),
      dataset_range_and_header = (\<lambda>dataset pos. fetch dataset),
      range_str = ex_range_str,
      range_str_contigs = ex_range_str,
      contigs = [(''chr1'', 1000)]\<rparr>"

definition ex_record :: "int \<Rightarrow> string \<Rightarrow> string list \<Rightarrow> int list \<Rightarrow> bcf1" where
  "ex_record beg ref alts gt =
     \<lparr>rec_range = (0, beg, beg + int (length ref)), ref_allele = ref, alt_alleles = alts,
      genotypes = gt\<rparr>"

text \<open>
  One dataset with one record, reference A and alternative C, and two diploid samples called
  (0,1) and (1,1); htslib encodes an unphased call of allele \<open>a\<close> as \<open>(a + 1) << 1\<close>.
\<close>

definition ex_svc_AC :: service where
  "ex_svc_AC = ex_service [''d1''] (\<lambda>d. (Status_OK, [ex_record 100 ''A'' [''C''] [2, 4, 4, 4]]))"

text \<open>Two datasets; the second cannot be fetched.\<close>

definition ex_svc_fetch_fails :: service where
  "ex_svc_fetch_fails =
     ex_service [''d1'', ''d2'']
       (\<lambda>d. if d = ''d1'' then (Status_OK, [ex_record 100 ''A'' [''C''] [2, 4, 4, 4]])
            else (Status_Failure ''dataset_range_and_header'' d, []))"

text \<open>
  One dataset holding a multi-allelic site split into two records at the same range:
  A to C with calls (0,1) and (0,0), then A to G with calls (0,0) and (0,1).
\<close>

definition ex_svc_split_site :: service where
  "ex_svc_split_site =
     ex_service [''d1'']
       (\<lambda>d. (Status_OK, [ex_record 100 ''A'' [''C''] [2, 4, 2, 2],
                          ex_record 100 ''A'' [''G''] [2, 2, 2, 4]]))"

text \<open>Two datasets that disagree on the reference allele at two ranges.\<close>

definition ex_svc_two_conflicts :: service where
  "ex_svc_two_conflicts =
     ex_service [''d1'', ''d2'']
       (\<lambda>d. if d = ''d1''
            then (Status_OK, [ex_record 100 ''A'' [''C''] [], ex_record 200 ''C'' [''G''] []])
            else (Status_OK, [ex_record 100 ''G'' [''C''] [], ex_record 200 ''T'' [''G''] []]))"

text \<open>
  One dataset with two records at the same range that both carry the alternative allele C:
  the first with the calls (0,1) and (0,0), the second with the calls (1,1) and (1,1).
\<close>

definition ex_svc_repeated_alt :: service where
  "ex_svc_repeated_alt =
     ex_service [''d1'']
       (\<lambda>d. (Status_OK, [ex_record 100 ''A'' [''C''] [2, 4, 2, 2],
                          ex_record 100 ''A'' [''C''] [4, 4, 4, 4]]))"

text \<open>
  One dataset with a site split into two records, A to C with the calls (0,1) and (0,0),
  then A to G with the calls (0,1) and (1,1).
\<close>

definition ex_svc_repeated_ref :: service where
  "ex_svc_repeated_ref =
     ex_service [''d1'']
       (\<lambda>d. (Status_OK, [ex_record 100 ''A'' [''C''] [2, 4, 2, 2],
                          ex_record 100 ''A'' [''G''] [2, 4, 4, 4]]))"

text \<open>
  Genotyping examples: site \<open>i\<close> yields the record \<open>ex_site i\<close>, except that the genotyper
  fails on the sites in \<open>fails\<close> and the write fails for the sites in \<open>write_fails\<close>.
\<close>

definition ex_site :: "nat \<Rightarrow> bcf1" where
  "ex_site i = ex_record (int i) ''A'' [''C''] []"

definition ex_io :: "nat list \<Rightarrow> nat list \<Rightarrow> bcf_io" where
  "ex_io fails write_fails =
     \<lparr>bcf_hdr_append_ok = (\<lambda>line. True), bcf_hdr_add_sample_ok = (\<lambda>sample. True),
      bcf_hdr_sync_ok = True, bcf_open_ok = True, bcf_hdr_write_ok = True,
      genotype_site = (\<lambda>i. if i \<in> set fails
                           then (Status_Failure ''genotype_site'' (decimal i), None)
                           else (Status_OK, Some (ex_site i))),
      bcf_write_ok = (\<lambda>i. i \<notin> set write_fails),
      bcf_close_ok = True\<rparr>"

definition ex_svc_sites :: service where
  "ex_svc_sites = ex_service [''d1''] (\<lambda>d. (Status_OK, []))"

text \<open>Two sites: the write of site 0 fails and the genotyper fails on site 1.\<close>

definition ex_sched_write_fail :: "event list" where
  "ex_sched_write_fail = [Start 0, Start 1, Finish 1, Finish 0, Drain, Drain]"

text \<open>
  Five sites, the genotyper failing on sites 1 and 3; task 3 returns first, and task 4 starts
  only after the drain loop has seen the failure of site 1.
\<close>

definition ex_sched_two_failures :: "event list" where
  "ex_sched_two_failures =
     [Start 3, Finish 3, Start 0, Start 1, Start 2, Finish 2, Finish 1, Finish 0,
      Drain, Drain, Start 4, Drain, Drain, Drain]"

definition ex_final_two_failures :: pipeline where
  "ex_final_two_failures =
     the (run (ex_io [1, 3] []) ''out.bcf'' ex_sched_two_failures (init 5))"

text \<open>Three sites whose tasks return in the reverse of the site order.\<close>

definition ex_sched_reversed :: "event list" where
  "ex_sched_reversed =
     [Start 2, Start 1, Start 0, Finish 2, Finish 1, Finish 0, Drain, Drain, Drain]"

definition ex_final_reversed :: pipeline where
  "ex_final_reversed = the (run (ex_io [] []) ''out.bcf'' ex_sched_reversed (init 3))"

text \<open>Three sites; the write of site 0 fails before the tasks of sites 1 and 2 start.\<close>

definition ex_before_write :: pipeline where
  "ex_before_write = the (run (ex_io [] [0]) ''out.bcf'' [Start 0, Finish 0] (init 3))"

definition ex_sched_after_write :: "event list" where
  "ex_sched_after_write = [Start 1, Start 2, Finish 2, Finish 1, Drain, Drain]"

definition ex_after_write :: pipeline where
  "ex_after_write =
     the (run (ex_io [] [0]) ''out.bcf'' (Drain # ex_sched_after_write) ex_before_write)"

text \<open>The alleles that the two conflicting datasets merge to.\<close>

definition ex_ans_two_conflicts :: discovered_alleles where
  "ex_ans_two_conflicts =
     [(((0, 100, 101), ''A''), \<lparr>is_ref = True, observation_count = 0\<rparr>),
      (((0, 100, 101), ''C''), \<lparr>is_ref = False, observation_count = 0\<rparr>),
      (((0, 100, 101), ''G''), \<lparr>is_ref = True, observation_count = 0\<rparr>),
      (((0, 200, 201), ''C''), \<lparr>is_ref = True, observation_count = 0\<rparr>),
      (((0, 200, 201), ''G''), \<lparr>is_ref = False, observation_count = 0\<rparr>),
      (((0, 200, 201), ''T''), \<lparr>is_ref = True, observation_count = 0\<rparr>)]"

section \<open>Properties of the discovered-allele map\<close>

lemma alt_loop_Cons [simp]:
  "alt_loop rng obs_counts (al # als) i (dsals, any_alt) =
     (if valid_dna (map toupper al)
      then alt_loop rng obs_counts als (Suc i)
             (map_insert ((rng, map toupper al), \<lparr>is_ref = False, observation_count = obs_counts ! i\<rparr>) dsals,
              True)
      else alt_loop rng obs_counts als (Suc i) (dsals, any_alt))"
  by (simp add: valid_dna_def Let_def)

declare alt_loop.simps(2) [simp del]

lemma map_insert_subset: "set (map_insert e m) \<subseteq> insert e (set m)"
  by (induction e m rule: map_insert.induct) auto

lemma map_insert_mono: "set m \<subseteq> set (map_insert e m)"
  by (induction e m rule: map_insert.induct) auto

lemma map_insert_keys: "fst ` set (map_insert e m) = insert (fst e) (fst ` set m)"
  by (induction e m rule: map_insert.induct) auto

lemma map_insert_fresh: "fst e \<notin> fst ` set m \<Longrightarrow> e \<in> set (map_insert e m)"
  by (induction e m rule: map_insert.induct) auto

lemma alt_loop_keys:
  "fst ` set (fst (alt_loop rng obs als i (m, b))) =
     fst ` set m \<union> {(rng, map toupper a) | a. a \<in> set als \<and> valid_dna (map toupper a)}"
proof (induction als arbitrary: i m b)
  case Nil
  then show ?case by simp
next
  case (Cons a als)
  show ?case
  proof (cases "valid_dna (map toupper a)")
    case True
    then show ?thesis using Cons.IH by (auto simp: Let_def map_insert_keys)
  next
    case False
    then show ?thesis using Cons.IH by (auto simp: Let_def)
  qed
qed

lemma alt_loop_any:
  "snd (alt_loop rng obs als i (m, b)) =
     (b \<or> (\<exists>a\<in>set als. valid_dna (map toupper a)))"
  by (induction als arbitrary: i m b) (auto simp: Let_def)

lemma alt_loop_mono: "set m \<subseteq> set (fst (alt_loop rng obs als i (m, b)))"
proof (induction als arbitrary: i m b)
  case Nil
  then show ?case by simp
next
  case (Cons a als)
  show ?case
  proof (cases "valid_dna (map toupper a)")
    case True
    then show ?thesis using Cons.IH map_insert_mono by (simp add: Let_def) blast
  next
    case False
    then show ?thesis using Cons.IH by (auto simp: Let_def)
  qed
qed

lemma alt_loop_entries:
  assumes "e \<in> set (fst (alt_loop rng obs als i (m, b)))"
  shows "e \<in> set m \<or>
         (\<exists>j<length als. e = ((rng, map toupper (als ! j)), \<lparr>is_ref = False, observation_count = obs ! (i + j)\<rparr>)
            \<and> valid_dna (map toupper (als ! j)))"
  using assms
proof (induction als arbitrary: i m b)
  case Nil
  then show ?case by simp
next
  case (Cons a als)
  show ?case
  proof (cases "valid_dna (map toupper a)")
    case True
    let ?e0 = "((rng, map toupper a), \<lparr>is_ref = False, observation_count = obs ! i\<rparr>)"
    from Cons.prems True
    have "e \<in> set (fst (alt_loop rng obs als (Suc i) (map_insert ?e0 m, True)))"
      by (simp add: Let_def)
    from Cons.IH[OF this]
    consider "e \<in> set (map_insert ?e0 m)"
      | j where "j < length als"
          "e = ((rng, map toupper (als ! j)), \<lparr>is_ref = False, observation_count = obs ! (Suc i + j)\<rparr>)"
          "valid_dna (map toupper (als ! j))"
      by blast
    then show ?thesis
    proof cases
      case 1
      then have "e = ?e0 \<or> e \<in> set m" using map_insert_subset by fastforce
      then show ?thesis
      proof
        assume "e = ?e0"
        then have "0 < length (a # als) \<and> e = ((rng, map toupper ((a # als) ! 0)),
              \<lparr>is_ref = False, observation_count = obs ! (i + 0)\<rparr>)
            \<and> valid_dna (map toupper ((a # als) ! 0))"
          using True by simp
        then show ?thesis by blast
      next
        assume "e \<in> set m" then show ?thesis by simp
      qed
    next
      case 2
      then have "Suc j < length (a # als) \<and> e = ((rng, map toupper ((a # als) ! Suc j)),
              \<lparr>is_ref = False, observation_count = obs ! (i + Suc j)\<rparr>)
            \<and> valid_dna (map toupper ((a # als) ! Suc j))"
        by simp
      then show ?thesis by blast
    qed
  next
    case False
    from Cons.prems False
    have "e \<in> set (fst (alt_loop rng obs als (Suc i) (m, b)))"
      by (auto simp: Let_def split: if_splits)
    from Cons.IH[OF this]
    consider "e \<in> set m"
      | j where "j < length als"
          "e = ((rng, map toupper (als ! j)), \<lparr>is_ref = False, observation_count = obs ! (Suc i + j)\<rparr>)"
          "valid_dna (map toupper (als ! j))"
      by blast
    then show ?thesis
    proof cases
      case 1
      then show ?thesis by simp
    next
      case 2
      then have "Suc j < length (a # als) \<and> e = ((rng, map toupper ((a # als) ! Suc j)),
              \<lparr>is_ref = False, observation_count = obs ! (i + Suc j)\<rparr>)
            \<and> valid_dna (map toupper ((a # als) ! Suc j))"
        by simp
      then show ?thesis by blast
    qed
  qed
qed

lemma alt_loop_none:
  "\<forall>a\<in>set als. \<not> (valid_dna (map toupper a))
   \<Longrightarrow> alt_loop rng obs als i (m, b) = (m, b)"
  by (induction als arbitrary: i) (auto simp: Let_def)

lemma process_record_bad_ref:
  assumes "\<not> (valid_dna (map toupper (ref_allele r)))"
  shows "process_record d ps r m =
           Inl (Status_Invalid ''invalid reference allele''
                  (d @ '' '' @ map toupper (ref_allele r) @ ''@'' @ ps))"
  using assms by (auto simp: process_record_def Let_def valid_dna_def split: prod.splits)

lemma process_record_good_ref:
  assumes "valid_dna (map toupper (ref_allele r))"
  shows "process_record d ps r m =
     Inr (if \<exists>a\<in>set (alt_alleles r). valid_dna (map toupper a)
          then map_insert ((rec_range r, map toupper (ref_allele r)),
                  \<lparr>is_ref = True, observation_count = obs_counts_of r ! 0\<rparr>)
                 (fst (alt_loop (rec_range r) (obs_counts_of r) (alt_alleles r) 1 (m, False)))
          else m)"
proof -
  obtain m1 b where al: "alt_loop (rec_range r) (obs_counts_of r) (alt_alleles r) 1 (m, False) = (m1, b)"
    by (cases "alt_loop (rec_range r) (obs_counts_of r) (alt_alleles r) 1 (m, False)")
  have b: "b = (\<exists>a\<in>set (alt_alleles r). valid_dna (map toupper a))"
    using alt_loop_any[of "rec_range r" "obs_counts_of r" "alt_alleles r" 1 m False] al by simp
  have m1: "\<not> b \<Longrightarrow> m1 = m"
    using alt_loop_none[of "alt_alleles r" "rec_range r" "obs_counts_of r" 1 m False] al b by simp
  show ?thesis using assms al b m1 by (auto simp: process_record_def Let_def valid_dna_def)
qed

lemma process_record_Inr_valid:
  "process_record d ps r m = Inr m' \<Longrightarrow>
     valid_dna (map toupper (ref_allele r))"
  using process_record_bad_ref[of r d ps m] by auto

lemma process_record_mono:
  assumes "process_record d ps r m = Inr m'"
  shows "set m \<subseteq> set m'"
proof -
  have v: "valid_dna (map toupper (ref_allele r))"
    using process_record_Inr_valid[OF assms] .
  let ?m1 = "fst (alt_loop (rec_range r) (obs_counts_of r) (alt_alleles r) 1 (m, False))"
  let ?re = "((rec_range r, map toupper (ref_allele r)),
                  \<lparr>is_ref = True, observation_count = obs_counts_of r ! 0\<rparr>)"
  have a: "set m \<subseteq> set ?m1" by (rule alt_loop_mono)
  have b: "set ?m1 \<subseteq> set (map_insert ?re ?m1)" by (rule map_insert_mono)
  have "m' = map_insert ?re ?m1 \<or> m' = m"
    using assms unfolding process_record_good_ref[OF v] by (auto split: if_splits)
  then show ?thesis using a b by auto
qed

lemma process_record_keys:
  assumes "process_record d ps r m = Inr m'"
  shows "fst ` set m' = fst ` set m
     \<union> {(rec_range r, map toupper a) | a. a \<in> set (alt_alleles r) \<and> valid_dna (map toupper a)}
     \<union> (if \<exists>a\<in>set (alt_alleles r). valid_dna (map toupper a)
        then {(rec_range r, map toupper (ref_allele r))} else {})"
proof -
  have v: "valid_dna (map toupper (ref_allele r))"
    using process_record_Inr_valid[OF assms] .
  show ?thesis
  proof (cases "\<exists>a\<in>set (alt_alleles r). valid_dna (map toupper a)")
    case True
    then have "m' = map_insert ((rec_range r, map toupper (ref_allele r)),
                  \<lparr>is_ref = True, observation_count = obs_counts_of r ! 0\<rparr>)
                 (fst (alt_loop (rec_range r) (obs_counts_of r) (alt_alleles r) 1 (m, False)))"
      using assms unfolding process_record_good_ref[OF v] by simp
    then show ?thesis using True by (auto simp: map_insert_keys alt_loop_keys)
  next
    case False
    then have "m' = m" using assms unfolding process_record_good_ref[OF v] by simp
    then show ?thesis using False by auto
  qed
qed

lemma process_record_entries:
  assumes "process_record d ps r m = Inr m'" "e \<in> set m'"
  shows "e \<in> set m
     \<or> (\<exists>j<length (alt_alleles r).
           e = ((rec_range r, map toupper (alt_alleles r ! j)),
                \<lparr>is_ref = False, observation_count = obs_counts_of r ! Suc j\<rparr>)
           \<and> valid_dna (map toupper (alt_alleles r ! j)))
     \<or> (e = ((rec_range r, map toupper (ref_allele r)),
              \<lparr>is_ref = True, observation_count = obs_counts_of r ! 0\<rparr>)
        \<and> (\<exists>a\<in>set (alt_alleles r). valid_dna (map toupper a)))"
proof -
  have v: "valid_dna (map toupper (ref_allele r))"
    using process_record_Inr_valid[OF assms(1)] .
  show ?thesis
  proof (cases "\<exists>a\<in>set (alt_alleles r). valid_dna (map toupper a)")
    case True
    let ?m1 = "fst (alt_loop (rec_range r) (obs_counts_of r) (alt_alleles r) 1 (m, False))"
    let ?re = "((rec_range r, map toupper (ref_allele r)),
                  \<lparr>is_ref = True, observation_count = obs_counts_of r ! 0\<rparr>)"
    have "m' = map_insert ?re ?m1"
      using assms True unfolding process_record_good_ref[OF v] by simp
    then have "e = ?re \<or> e \<in> set ?m1" using assms(2) map_insert_subset by fastforce
    then show ?thesis
    proof
      assume "e = ?re" then show ?thesis using True by simp
    next
      assume "e \<in> set ?m1"
      from alt_loop_entries[OF this] show ?thesis by auto
    qed
  next
    case False
    then have "m' = m" using assms unfolding process_record_good_ref[OF v] by simp
    then show ?thesis using assms(2) by simp
  qed
qed

lemma records_loop_mono:
  "records_loop d ps rs m = Inr m' \<Longrightarrow> set m \<subseteq> set m'"
proof (induction rs arbitrary: m)
  case Nil
  then show ?case by simp
next
  case (Cons r rs)
  then obtain m1 where m1: "process_record d ps r m = Inr m1" "records_loop d ps rs m1 = Inr m'"
    by (auto split: sum.splits)
  show ?case using process_record_mono[OF m1(1)] Cons.IH[OF m1(2)] by blast
qed

lemma records_loop_entries:
  "records_loop d ps rs m = Inr m' \<Longrightarrow> e \<in> set m' \<Longrightarrow>
   e \<in> set m \<or> (\<exists>r\<in>set rs.
      (\<exists>j<length (alt_alleles r).
           e = ((rec_range r, map toupper (alt_alleles r ! j)),
                \<lparr>is_ref = False, observation_count = obs_counts_of r ! Suc j\<rparr>)
           \<and> valid_dna (map toupper (alt_alleles r ! j)))
     \<or> (e = ((rec_range r, map toupper (ref_allele r)),
              \<lparr>is_ref = True, observation_count = obs_counts_of r ! 0\<rparr>)
        \<and> valid_dna (map toupper (ref_allele r))
        \<and> (\<exists>a\<in>set (alt_alleles r). valid_dna (map toupper a))))"
proof (induction rs arbitrary: m)
  case Nil
  then show ?case by simp
next
  case (Cons r rs)
  then obtain m1 where m1: "process_record d ps r m = Inr m1" "records_loop d ps rs m1 = Inr m'"
    by (auto split: sum.splits)
  from Cons.IH[OF m1(2) Cons.prems(2)] show ?case
  proof
    assume "e \<in> set m1"
    from process_record_entries[OF m1(1) this] process_record_Inr_valid[OF m1(1)]
    show ?thesis by auto
  next
    assume "\<exists>r\<in>set rs.
      (\<exists>j<length (alt_alleles r).
           e = ((rec_range r, map toupper (alt_alleles r ! j)),
                \<lparr>is_ref = False, observation_count = obs_counts_of r ! Suc j\<rparr>)
           \<and> valid_dna (map toupper (alt_alleles r ! j)))
     \<or> (e = ((rec_range r, map toupper (ref_allele r)),
              \<lparr>is_ref = True, observation_count = obs_counts_of r ! 0\<rparr>)
        \<and> valid_dna (map toupper (ref_allele r))
        \<and> (\<exists>a\<in>set (alt_alleles r). valid_dna (map toupper a)))"
    then show ?thesis by auto
  qed
qed

lemma records_loop_alt_key:
  "records_loop d ps rs m = Inr m' \<Longrightarrow> r \<in> set rs \<Longrightarrow> a \<in> set (alt_alleles r)
   \<Longrightarrow> valid_dna (map toupper a)
   \<Longrightarrow> (rec_range r, map toupper a) \<in> fst ` set m'"
proof (induction rs arbitrary: m)
  case Nil
  then show ?case by simp
next
  case (Cons r0 rs)
  then obtain m1 where m1: "process_record d ps r0 m = Inr m1" "records_loop d ps rs m1 = Inr m'"
    by (auto split: sum.splits)
  show ?case
  proof (cases "r = r0")
    case True
    then have "(rec_range r, map toupper a) \<in> fst ` set m1"
      using process_record_keys[OF m1(1)] Cons.prems(3,4) by auto
    then show ?thesis using records_loop_mono[OF m1(2)] by auto
  next
    case False
    then have "r \<in> set rs" using Cons.prems(2) by simp
    from Cons.IH[OF m1(2) this Cons.prems(3,4)] show ?thesis .
  qed
qed

lemma records_loop_fail:
  "records_loop d ps rs1 m = Inr m1 \<Longrightarrow> process_record d ps r m1 = Inl e
   \<Longrightarrow> records_loop d ps (rs1 @ r # rs2) m = Inl e"
  by (induction rs1 arbitrary: m) (auto split: sum.splits)

lemma ok_OK: "ok Status_OK"
  by (simp add: ok_def Status_OK_def)

lemma merge_entry_keys: "fst ` set (merge_entry e m) = insert (fst e) (fst ` set m)"
  by (induction e m rule: merge_entry.induct) auto

lemma merge_foldl_keys:
  "fst ` set (foldl (\<lambda>d e. merge_entry e d) dest src) = fst ` set src \<union> fst ` set dest"
  by (induction src arbitrary: dest) (auto simp: merge_entry_keys)

lemma merge_keys:
  "fst ` set (snd (merge_discovered_alleles src dest)) = fst ` set src \<union> fst ` set dest"
  by (simp add: merge_discovered_alleles_def merge_foldl_keys)

lemma merge_ok: "fst (merge_discovered_alleles src dest) = Status_OK"
  by (simp add: merge_discovered_alleles_def)

lemma bad_Invalid: "bad (Status_Invalid m n)"
  by (simp add: bad_def ok_def Status_Invalid_def)

lemma process_record_Inl_bad: "process_record d ps r m = Inl e \<Longrightarrow> bad e"
  by (auto simp: process_record_def Let_def bad_Invalid split: prod.splits if_splits)

lemma records_loop_Inl_bad: "records_loop d ps rs m = Inl e \<Longrightarrow> bad e"
  by (induction rs arbitrary: m) (auto split: sum.splits dest: process_record_Inl_bad)

lemma records_loop_dna:
  assumes "records_loop d ps rs m = Inr m'" "\<forall>k\<in>fst ` set m. valid_dna (snd k)"
  shows "\<forall>k\<in>fst ` set m'. valid_dna (snd k)"
proof
  fix k assume "k \<in> fst ` set m'"
  then obtain ai where "(k, ai) \<in> set m'" by auto
  from records_loop_entries[OF assms(1) this] show "valid_dna (snd k)"
    using assms(2) by force
qed

lemma datasets_loop_Cons:
  "datasets_loop svc pos (d # ds) ans =
     (if bad (fst (dataset_range_and_header svc d pos))
      then (fst (dataset_range_and_header svc d pos), ans)
      else case records_loop d (range_str svc pos) (snd (dataset_range_and_header svc d pos)) [] of
             Inl s1 \<Rightarrow> (s1, ans)
           | Inr dsals \<Rightarrow> datasets_loop svc pos ds (snd (merge_discovered_alleles dsals ans)))"
  by (auto simp: merge_discovered_alleles_def bad_def ok_OK split: prod.splits sum.splits)

declare datasets_loop.simps(2) [simp del]

lemma datasets_loop_dna:
  "datasets_loop svc pos ds ans = (s, ans') \<Longrightarrow> \<forall>k\<in>fst ` set ans. valid_dna (snd k)
   \<Longrightarrow> \<forall>k\<in>fst ` set ans'. valid_dna (snd k)"
proof (induction ds arbitrary: ans)
  case Nil
  then show ?case by simp
next
  case (Cons d ds)
  show ?case
  proof (cases "bad (fst (dataset_range_and_header svc d pos))")
    case True
    then show ?thesis using Cons.prems by (simp add: datasets_loop_Cons)
  next
    case False
    show ?thesis
    proof (cases "records_loop d (range_str svc pos) (snd (dataset_range_and_header svc d pos)) []")
      case (Inl e)
      then show ?thesis using Cons.prems False by (simp add: datasets_loop_Cons)
    next
      case (Inr dsals)
      have "\<forall>k\<in>fst ` set dsals. valid_dna (snd k)"
        using records_loop_dna[OF Inr] by simp
      then have "\<forall>k\<in>fst ` set (snd (merge_discovered_alleles dsals ans)). valid_dna (snd k)"
        using Cons.prems(2) by (auto simp: merge_keys)
      moreover have "datasets_loop svc pos ds (snd (merge_discovered_alleles dsals ans)) = (s, ans')"
        using Cons.prems(1) False Inr by (simp add: datasets_loop_Cons)
      ultimately show ?thesis using Cons.IH by blast
    qed
  qed
qed

lemma datasets_loop_keys_mono:
  "datasets_loop svc pos ds ans = (s, ans') \<Longrightarrow> fst ` set ans \<subseteq> fst ` set ans'"
proof (induction ds arbitrary: ans)
  case Nil
  then show ?case by simp
next
  case (Cons d ds)
  show ?case
  proof (cases "bad (fst (dataset_range_and_header svc d pos))")
    case True
    then show ?thesis using Cons.prems by (simp add: datasets_loop_Cons)
  next
    case False
    show ?thesis
    proof (cases "records_loop d (range_str svc pos) (snd (dataset_range_and_header svc d pos)) []")
      case (Inl e)
      then show ?thesis using Cons.prems False by (simp add: datasets_loop_Cons)
    next
      case (Inr dsals)
      have "datasets_loop svc pos ds (snd (merge_discovered_alleles dsals ans)) = (s, ans')"
        using Cons.prems(1) False Inr by (simp add: datasets_loop_Cons)
      from Cons.IH[OF this] show ?thesis by (auto simp: merge_keys)
    qed
  qed
qed

lemma datasets_loop_ok_contains:
  "datasets_loop svc pos ds ans = (s, ans') \<Longrightarrow> ok s \<Longrightarrow> d \<in> set ds
   \<Longrightarrow> ok (fst (dataset_range_and_header svc d pos))
       \<and> (\<exists>dsals. records_loop d (range_str svc pos) (snd (dataset_range_and_header svc d pos)) []
                    = Inr dsals \<and> fst ` set dsals \<subseteq> fst ` set ans')"
proof (induction ds arbitrary: ans)
  case Nil
  then show ?case by simp
next
  case (Cons d0 ds)
  have nb: "\<not> bad (fst (dataset_range_and_header svc d0 pos))"
    using Cons.prems(1,2) by (auto simp: datasets_loop_Cons bad_def split: if_splits)
  then obtain dsals where dsals:
    "records_loop d0 (range_str svc pos) (snd (dataset_range_and_header svc d0 pos)) [] = Inr dsals"
    using Cons.prems(1,2) records_loop_Inl_bad
    by (fastforce simp: datasets_loop_Cons bad_def split: if_splits sum.splits)
  have rest: "datasets_loop svc pos ds (snd (merge_discovered_alleles dsals ans)) = (s, ans')"
    using Cons.prems(1) nb dsals by (simp add: datasets_loop_Cons)
  show ?case
  proof (cases "d = d0")
    case True
    have "fst ` set dsals \<subseteq> fst ` set ans'"
      using datasets_loop_keys_mono[OF rest] by (auto simp: merge_keys)
    then show ?thesis using True nb dsals by (simp add: bad_def)
  next
    case False
    then have "d \<in> set ds" using Cons.prems(3) by simp
    from Cons.IH[OF rest Cons.prems(2) this] show ?thesis .
  qed
qed

lemma datasets_loop_fail_prefix:
  "datasets_loop svc pos ds a = (st, ans) \<Longrightarrow> bad st
   \<Longrightarrow> \<exists>k<length ds. datasets_loop svc pos (take k ds) a = (Status_OK, ans)
                       \<and> datasets_loop svc pos [ds ! k] ans = (st, ans)"
proof (induction ds arbitrary: a)
  case Nil
  then show ?case by (simp add: bad_def ok_OK)
next
  case (Cons d ds)
  show ?case
  proof (cases "bad (fst (dataset_range_and_header svc d pos))")
    case True
    then have "ans = a \<and> st = fst (dataset_range_and_header svc d pos)"
      using Cons.prems by (auto simp: datasets_loop_Cons)
    then have "datasets_loop svc pos (take 0 (d # ds)) a = (Status_OK, ans)
                \<and> datasets_loop svc pos [(d # ds) ! 0] ans = (st, ans)"
      using True by (simp add: datasets_loop_Cons)
    then show ?thesis by blast
  next
    case False
    show ?thesis
    proof (cases "records_loop d (range_str svc pos) (snd (dataset_range_and_header svc d pos)) []")
      case (Inl e)
      then have "ans = a \<and> st = e" using Cons.prems False by (auto simp: datasets_loop_Cons)
      then have "datasets_loop svc pos (take 0 (d # ds)) a = (Status_OK, ans)
                  \<and> datasets_loop svc pos [(d # ds) ! 0] ans = (st, ans)"
        using False Inl by (simp add: datasets_loop_Cons)
      then show ?thesis by blast
    next
      case (Inr dsals)
      have "datasets_loop svc pos ds (snd (merge_discovered_alleles dsals a)) = (st, ans)"
        using Cons.prems(1) False Inr by (simp add: datasets_loop_Cons)
      from Cons.IH[OF this Cons.prems(2)] obtain k where k: "k < length ds"
        "datasets_loop svc pos (take k ds) (snd (merge_discovered_alleles dsals a)) = (Status_OK, ans)"
        "datasets_loop svc pos [ds ! k] ans = (st, ans)" by blast
      have "Suc k < length (d # ds)
            \<and> datasets_loop svc pos (take (Suc k) (d # ds)) a = (Status_OK, ans)
            \<and> datasets_loop svc pos [(d # ds) ! Suc k] ans = (st, ans)"
        using k False Inr by (simp add: datasets_loop_Cons)
      then show ?thesis by blast
    qed
  qed
qed

lemma datasets_loop_ok_status:
  "datasets_loop svc pos ds a = (st, ans) \<Longrightarrow> ok st \<Longrightarrow> st = Status_OK"
proof (induction ds arbitrary: a)
  case Nil
  then show ?case by simp
next
  case (Cons d ds)
  then show ?case using records_loop_Inl_bad
    by (fastforce simp: datasets_loop_Cons bad_def split: if_splits sum.splits)
qed

lemma datasets_loop_append:
  "datasets_loop svc pos ds1 a = (s1, a1) \<Longrightarrow> ok s1
   \<Longrightarrow> datasets_loop svc pos (ds1 @ ds2) a = datasets_loop svc pos ds2 a1"
proof (induction ds1 arbitrary: a)
  case Nil
  then show ?case by simp
next
  case (Cons d ds1)
  then show ?case using records_loop_Inl_bad
    by (fastforce simp: datasets_loop_Cons bad_def split: if_splits sum.splits)
qed

lemma discover_alleles_resolved:
  assumes "sampleset_datasets svc ss = (s0, samples, ds)" "ok s0"
  shows "discover_alleles svc ss pos ans0 =
     (if bad (fst (datasets_loop svc pos ds [])) then datasets_loop svc pos ds []
      else (check_refs (range_str_contigs svc) (snd (datasets_loop svc pos ds [])),
            snd (datasets_loop svc pos ds [])))"
  using assms by (auto simp: discover_alleles_def bad_def split: prod.splits)

lemma discover_alleles_unresolved:
  assumes "sampleset_datasets svc ss = (s0, samples, ds)" "bad s0"
  shows "discover_alleles svc ss pos ans0 = (s0, ans0)"
  using assms by (auto simp: discover_alleles_def)

lemma count_obs_length: "length (count_obs n gt obs) = length obs"
  by (induction gt arbitrary: obs) (auto simp: Let_def)

lemma float_plus_one_iterated:
  "(float_plus_one ^^ c) 0 = min (real c) 16777216"
proof (induction c)
  case 0
  then show ?case by simp
next
  case (Suc c)
  show ?case
  proof (cases "real c < 16777216")
    case True
    then have "real c + 1 \<le> 16777216"
      by (metis of_nat_Suc of_nat_less_iff of_nat_le_iff of_nat_numeral Suc_leI add.commute)
    then show ?thesis using Suc True by (simp add: float_plus_one_def min_def)
  next
    case False
    then show ?thesis using Suc by (simp add: float_plus_one_def min_def)
  qed
qed

lemma count_obs_nth:
  "length obs = n \<Longrightarrow> a < n \<Longrightarrow>
   count_obs n gt obs ! a =
     (float_plus_one
        ^^ length (filter (\<lambda>g. g \<noteq> bcf_int32_vector_end \<and> bcf_gt_allele g = int a) gt))
       (obs ! a)"
proof (induction gt arbitrary: obs)
  case Nil
  then show ?case by simp
next
  case (Cons g gt)
  let ?obs' = "if g \<noteq> bcf_int32_vector_end
        then (let al_i = bcf_gt_allele g
              in if al_i \<ge> 0 \<and> al_i < int n
                 then obs[nat al_i := float_plus_one (obs ! nat al_i)]
                 else obs)
        else obs"
  let ?c = "length (filter (\<lambda>g. g \<noteq> bcf_int32_vector_end \<and> bcf_gt_allele g = int a) gt)"
  have len: "length ?obs' = n" using Cons.prems(1) by (simp add: Let_def)
  have step: "?obs' ! a = (if g \<noteq> bcf_int32_vector_end \<and> bcf_gt_allele g = int a
                           then float_plus_one (obs ! a) else obs ! a)"
  proof (cases "g \<noteq> bcf_int32_vector_end \<and> bcf_gt_allele g \<ge> 0 \<and> bcf_gt_allele g < int n")
    case True
    then have "nat (bcf_gt_allele g) < length obs" using Cons.prems(1) by (simp add: nat_less_iff)
    moreover have "(nat (bcf_gt_allele g) = a) = (bcf_gt_allele g = int a)" using True by auto
    ultimately show ?thesis using True Cons.prems by (auto simp: Let_def nth_list_update)
  next
    case False
    then have "\<not> (g \<noteq> bcf_int32_vector_end \<and> bcf_gt_allele g = int a)" using Cons.prems(2) by auto
    then show ?thesis using False by (auto simp: Let_def)
  qed
  have "count_obs n (g # gt) obs ! a = count_obs n gt ?obs' ! a" by simp
  also have "\<dots> = (float_plus_one ^^ ?c) (?obs' ! a)"
    using Cons.IH[OF len Cons.prems(2)] .
  finally show ?case using step by (simp add: funpow_swap1)
qed

lemma obs_counts_of_nth:
  "a < n_allele r \<Longrightarrow>
   obs_counts_of r ! a =
     min (real (length (filter (\<lambda>g. g \<noteq> bcf_int32_vector_end \<and> bcf_gt_allele g = int a)
                          (genotypes r))))
         16777216"
  using count_obs_nth[of "replicate (n_allele r) 0" "n_allele r" a "genotypes r"]
  by (simp add: obs_counts_of_def float_plus_one_iterated)

lemma count_obs_append:
  "count_obs n (gt1 @ gt2) obs = count_obs n gt2 (count_obs n gt1 obs)"
  by (induction gt1 arbitrary: obs) simp_all

lemma find_sorted_Min:
  "sorted xs \<Longrightarrow> find P xs = (if \<exists>x\<in>set xs. P x then Some (Min {x \<in> set xs. P x}) else None)"
proof (induction xs)
  case Nil
  then show ?case by simp
next
  case (Cons x xs)
  show ?case
  proof (cases "P x")
    case True
    have "Min {y \<in> set (x # xs). P y} = x"
    proof (rule Min_eqI)
      show "finite {y \<in> set (x # xs). P y}" by simp
      show "\<And>y. y \<in> {y \<in> set (x # xs). P y} \<Longrightarrow> x \<le> y" using Cons.prems by auto
      show "x \<in> {y \<in> set (x # xs). P y}" using True by simp
    qed
    then show ?thesis using True by simp
  next
    case False
    then have "{y \<in> set (x # xs). P y} = {y \<in> set xs. P y}" by auto
    then show ?thesis using False Cons by auto
  qed
qed

lemma check_loop_find:
  "check_loop str rc rngs =
     (case find (\<lambda>rng. length (refs_at rc rng) \<noteq> 1) rngs of
        None \<Rightarrow> Status_OK
      | Some rng \<Rightarrow>
          if length (refs_at rc rng) > 1
          then Status_Invalid ''data sets contain inconsistent reference alleles''
                 (str rng @ concat (map (\<lambda>r. CHR '' '' # r) (refs_at rc rng)))
          else Status_Invalid ''data sets contain no reference allele'' (str rng))"
proof (induction rngs)
  case Nil
  then show ?case by simp
next
  case (Cons rng rngs)
  consider (many) "length (refs_at rc rng) > 1" | (none) "length (refs_at rc rng) = 0"
    | (one) "length (refs_at rc rng) = 1"
    by linarith
  then show ?case
  proof cases
    case many
    then show ?thesis by (simp add: Let_def)
  next
    case none
    then show ?thesis by (simp add: Let_def)
  next
    case one
    then show ?thesis using Cons.IH by (simp add: Let_def)
  qed
qed

lemma ranges_of_set: "set (ranges_of ans) = (\<lambda>e. fst (fst e)) ` set ans"
  by (simp add: ranges_of_def case_prod_beta)

lemma ranges_of_sorted: "sorted (ranges_of ans)"
  by (simp add: ranges_of_def)

lemma check_refs_Min:
  "check_refs str ans =
     (let V = {rng \<in> (\<lambda>e. fst (fst e)) ` set ans. length (refs_at (refcheck_of ans) rng) \<noteq> 1}
      in if V = {} then Status_OK
         else if length (refs_at (refcheck_of ans) (Min V)) > 1
         then Status_Invalid ''data sets contain inconsistent reference alleles''
                 (str (Min V) @ concat (map (\<lambda>r. CHR '' '' # r) (refs_at (refcheck_of ans) (Min V))))
         else Status_Invalid ''data sets contain no reference allele'' (str (Min V)))"
proof -
  let ?P = "\<lambda>rng. length (refs_at (refcheck_of ans) rng) \<noteq> 1"
  have V: "{x \<in> set (ranges_of ans). ?P x} =
           {rng \<in> (\<lambda>e. fst (fst e)) ` set ans. ?P rng}"
    by (simp add: ranges_of_set)
  have "find ?P (ranges_of ans) =
        (if \<exists>x\<in>set (ranges_of ans). ?P x then Some (Min {x \<in> set (ranges_of ans). ?P x}) else None)"
    by (rule find_sorted_Min[OF ranges_of_sorted])
  then show ?thesis
    unfolding check_refs_def check_loop_find V[symmetric] Let_def
    by (auto simp del: One_nat_def)
qed

lemma refs_at_set:
  "set (refs_at (refcheck_of ans) rng) = {dna. \<exists>ai. ((rng, dna), ai) \<in> set ans \<and> is_ref ai}"
  by (force simp: refs_at_def refcheck_of_def)

lemma refs_at_distinct:
  "distinct (map fst ans) \<Longrightarrow> distinct (refs_at (refcheck_of ans) rng)"
proof (induction ans)
  case Nil
  then show ?case by (simp add: refs_at_def refcheck_of_def)
next
  case (Cons e ans)
  have IH: "distinct (refs_at (refcheck_of ans) rng)" using Cons by simp
  have notin: "fst e \<notin> fst ` set ans" using Cons.prems by simp
  show ?case
  proof (cases "fst (fst e) = rng \<and> is_ref (snd e)")
    case True
    have "snd (fst e) \<notin> set (refs_at (refcheck_of ans) rng)"
    proof
      assume "snd (fst e) \<in> set (refs_at (refcheck_of ans) rng)"
      then obtain ai where "((rng, snd (fst e)), ai) \<in> set ans" by (auto simp: refs_at_set)
      moreover have "fst e = (rng, snd (fst e))" using True by (cases e) auto
      ultimately have "fst e \<in> fst ` set ans" by (metis fst_conv image_eqI)
      then show False using notin by simp
    qed
    moreover have "refs_at (refcheck_of (e # ans)) rng = snd (fst e) # refs_at (refcheck_of ans) rng"
      using True by (auto simp: refs_at_def refcheck_of_def split: prod.splits)
    ultimately show ?thesis using IH by simp
  next
    case False
    then have "refs_at (refcheck_of (e # ans)) rng = refs_at (refcheck_of ans) rng"
      by (auto simp: refs_at_def refcheck_of_def split: prod.splits)
    then show ?thesis using IH by simp
  qed
qed

lemma map_insert_sorted:
  "sorted_wrt (<) (map fst m) \<Longrightarrow> sorted_wrt (<) (map fst (map_insert e m))"
proof (induction e m rule: map_insert.induct)
  case (1 k v)
  then show ?case by simp
next
  case (2 k v k' v' m)
  show ?case
  proof (cases "k < k'")
    case True
    then show ?thesis using 2 by (auto intro: less_trans)
  next
    case False
    show ?thesis
    proof (cases "k = k'")
      case True
      then show ?thesis using 2 by simp
    next
      case neq: False
      have "\<forall>x\<in>fst ` set (map_insert (k, v) m). k' < x"
        using 2 False neq by (auto simp: map_insert_keys)
      then show ?thesis using 2 False neq by auto
    qed
  qed
qed

lemma merge_entry_sorted:
  "sorted_wrt (<) (map fst m) \<Longrightarrow> sorted_wrt (<) (map fst (merge_entry e m))"
proof (induction e m rule: merge_entry.induct)
  case (1 k ai)
  then show ?case by simp
next
  case (2 k ai k' ai' m)
  show ?case
  proof (cases "k < k'")
    case True
    then show ?thesis using 2 by (auto intro: less_trans)
  next
    case False
    show ?thesis
    proof (cases "k = k'")
      case True
      then show ?thesis using 2 by simp
    next
      case neq: False
      have "\<forall>x\<in>fst ` set (merge_entry (k, ai) m). k' < x"
        using 2 False neq by (auto simp: merge_entry_keys)
      then show ?thesis using 2 False neq by auto
    qed
  qed
qed

section \<open>Invariants of the genotyping pipeline\<close>

lemma bad_IOError: "bad (Status_IOError m n)"
  by (simp add: bad_def ok_def Status_IOError_def)

lemma init_inv: "pipe_inv io filename n (init n)"
  by (simp add: pipe_inv_def inv_tasks_def inv_drain_def init_def written_prefix_def ok_OK bad_def)

text \<open>A task that has not returned yet changes its state.\<close>

lemma written_prefix_frame:
  assumes "written_prefix io p m" "statuses p' = (statuses p)[i := t]" "\<forall>j<m. j \<noteq> i"
    "outfile p' = outfile p"
  shows "written_prefix io p' m"
proof -
  have "\<forall>j<m. statuses p' ! j = statuses p ! j"
    using assms(2,3) by (metis nth_list_update_neq)
  then show ?thesis using assms(1,4) by (simp add: written_prefix_def)
qed

lemma first_error_frame:
  assumes "first_error io filename p m" "statuses p' = (statuses p)[i := t]" "\<forall>j\<le>m. j \<noteq> i"
    "outfile p' = outfile p" "status_s p' = status_s p" "abort p' = abort p"
  shows "first_error io filename p' m"
proof -
  have "written_prefix io p' m"
    using assms by (intro written_prefix_frame[of io p m p' i t]) (auto simp: first_error_def)
  moreover have "statuses p' ! m = statuses p ! m"
    using assms(2,3) by (metis nth_list_update_neq order_refl)
  ultimately show ?thesis using assms(1,5,6) by (simp add: first_error_def)
qed

lemma task_update_inv:
  assumes inv: "pipe_inv io filename n p"
    and i: "i < n" "future_get (statuses p ! i) = None"
    and st: "statuses p' = (statuses p)[i := t]"
    and t1: "t = Cancelled \<longrightarrow> abort p"
    and t2: "\<forall>ls. t = Finished ls \<longrightarrow> ls = fst (genotype_site io i)
               \<and> (ok ls \<longrightarrow> results p' ! i = snd (genotype_site io i))"
    and res: "\<forall>j. j \<noteq> i \<longrightarrow> results p' ! j = results p ! j" "length (results p') = length (results p)"
    and same: "abort p' = abort p" "status_s p' = status_s p" "drain_i p' = drain_i p"
      "outfile p' = outfile p"
  shows "pipe_inv io filename n p'"
proof -
  from inv have T: "inv_tasks io n p" and D: "inv_drain io filename p"
    by (simp_all add: pipe_inv_def)
  have nd: "\<forall>j<drain_i p. j \<noteq> i" using T i(2) by (auto simp: inv_tasks_def)
  have len: "length (statuses p) = n" using T by (simp add: inv_tasks_def)
  have T': "inv_tasks io n p'"
    unfolding inv_tasks_def
  proof (intro conjI allI impI)
    show "length (statuses p') = n" using st len by simp
    show "length (results p') = n" using res T by (simp add: inv_tasks_def)
    show "drain_i p' \<le> n" using same T by (simp add: inv_tasks_def)
  next
    fix j assume "j < n" "statuses p' ! j = Cancelled"
    then show "abort p'" using st t1 same T len by (cases "j = i") (auto simp: inv_tasks_def)
  next
    fix j ls assume j: "j < n" "statuses p' ! j = Finished ls"
    show "ls = fst (genotype_site io j)"
      using j st t2 T len by (cases "j = i") (auto simp: inv_tasks_def)
  next
    fix j ls assume j: "j < n" "statuses p' ! j = Finished ls" "drain_i p' \<le> j" "ok ls"
    show "results p' ! j = snd (genotype_site io j)"
      using j st t2 T len res same by (cases "j = i") (auto simp: inv_tasks_def)
  next
    fix j assume j: "j < drain_i p'"
    then have "j \<noteq> i" using nd same by simp
    then show "future_get (statuses p' ! j) \<noteq> None" using j st T same by (simp add: inv_tasks_def)
  qed
  have D': "inv_drain io filename p'"
    unfolding inv_drain_def
  proof (intro conjI impI)
    assume "abort p'" then show "bad (status_s p')" using D same by (simp add: inv_drain_def)
  next
    assume "ok (status_s p')"
    then have "written_prefix io p (drain_i p)" using D same by (simp add: inv_drain_def)
    then show "written_prefix io p' (drain_i p')"
      using written_prefix_frame[of io p "drain_i p" p' i t] st nd same by simp
  next
    assume "bad (status_s p')"
    then obtain m where m: "m < drain_i p" "first_error io filename p m"
      using D same by (auto simp: inv_drain_def)
    have "\<forall>j\<le>m. j \<noteq> i" using nd m(1) by auto
    then have "first_error io filename p' m"
      using first_error_frame[of io filename p m p' i t] m(2) st same by simp
    then show "\<exists>m<drain_i p'. first_error io filename p' m" using m(1) same by auto
  qed
  show ?thesis using T' D' by (simp add: pipe_inv_def)
qed

lemma start_inv:
  assumes "pipe_inv io filename n p" "step io filename (Start i) p = Some p'"
  shows "pipe_inv io filename n p'"
proof -
  have len: "length (statuses p) = n" using assms(1) by (simp add: pipe_inv_def inv_tasks_def)
  from assms(2) have i: "i < length (statuses p)" "statuses p ! i = Pending"
    and p': "p' = p\<lparr>statuses := (statuses p)[i := if abort p then Cancelled else Running]\<rparr>"
    by (auto split: if_splits)
  show ?thesis
    by (rule task_update_inv[OF assms(1), of i p' "if abort p then Cancelled else Running"])
       (use i len in \<open>simp_all add: p'\<close>)
qed

lemma finish_inv:
  assumes "pipe_inv io filename n p" "step io filename (Finish i) p = Some p'"
  shows "pipe_inv io filename n p'"
proof -
  have len: "length (statuses p) = n" "length (results p) = n"
    using assms(1) by (simp_all add: pipe_inv_def inv_tasks_def)
  obtain ls bcf where g: "genotype_site io i = (ls, bcf)" by (cases "genotype_site io i")
  from assms(2) g have i: "i < length (statuses p)" "statuses p ! i = Running"
    and p': "p' = (if bad ls then p\<lparr>statuses := (statuses p)[i := Finished ls]\<rparr>
                   else p\<lparr>statuses := (statuses p)[i := Finished ls], results := (results p)[i := bcf]\<rparr>)"
    by (auto split: if_splits)
  show ?thesis
    by (rule task_update_inv[OF assms(1), of i p' "Finished ls"])
       (use i len g in \<open>auto simp: p' bad_def\<close>)
qed


lemma drain_inv_tasks:
  assumes T: "inv_tasks io n p"
    and i: "drain_i p < n" "future_get (statuses p ! drain_i p) \<noteq> None"
    and p': "statuses p' = statuses p" "results p' = (results p)[drain_i p := None]"
      "drain_i p' = Suc (drain_i p)" "abort p \<longrightarrow> abort p'"
  shows "inv_tasks io n p'"
  unfolding inv_tasks_def
proof (intro conjI allI impI)
  show "length (statuses p') = n" "length (results p') = n" "drain_i p' \<le> n"
    using T i p' by (simp_all add: inv_tasks_def)
next
  fix j assume "j < n" "statuses p' ! j = Cancelled"
  then show "abort p'" using T p' by (simp add: inv_tasks_def)
next
  fix j ls assume "j < n" "statuses p' ! j = Finished ls"
  then show "ls = fst (genotype_site io j)" using T p' by (simp add: inv_tasks_def)
next
  fix j ls assume j: "j < n" "statuses p' ! j = Finished ls" "drain_i p' \<le> j" "ok ls"
  then have "results p ! j = snd (genotype_site io j)" using T p' by (simp add: inv_tasks_def)
  moreover have "drain_i p \<noteq> j" using j(3) p'(3) by simp
  ultimately show "results p' ! j = snd (genotype_site io j)" using p'(2) by simp
next
  fix j assume "j < drain_i p'"
  then have "j < drain_i p \<or> j = drain_i p" using p'(3) by auto
  then show "future_get (statuses p' ! j) \<noteq> None" using T i(2) p'(1) by (auto simp: inv_tasks_def)
qed

lemma written_prefix_same:
  assumes "written_prefix io p m" "statuses p' = statuses p" "outfile p' = outfile p"
  shows "written_prefix io p' m"
  using assms by (simp add: written_prefix_def)

lemma first_error_same:
  assumes "first_error io filename p m" "statuses p' = statuses p" "outfile p' = outfile p"
    "status_s p' = status_s p" "abort p' = abort p"
  shows "first_error io filename p' m"
  using assms written_prefix_same[of io p m p'] by (simp add: first_error_def)

lemma drain_inv:
  assumes inv: "pipe_inv io filename n p" and stp: "step io filename Drain p = Some p'"
  shows "pipe_inv io filename n p'"
proof -
  from inv have T: "inv_tasks io n p" and D: "inv_drain io filename p"
    by (simp_all add: pipe_inv_def)
  have len: "length (statuses p) = n" using T by (simp add: inv_tasks_def)
  define i where "i = drain_i p"
  define p1 where "p1 = p\<lparr>results := (results p)[i := None], drain_i := Suc i\<rparr>"
  from stp have i: "i < n" using len by (auto simp: i_def Let_def split: if_splits)
  from stp i len obtain s_i where s_i: "future_get (statuses p ! i) = Some s_i"
    by (auto simp: i_def Let_def split: option.splits)
  have p1: "statuses p1 = statuses p" "results p1 = (results p)[i := None]"
    "drain_i p1 = Suc i" "abort p1 = abort p" "status_s p1 = status_s p" "outfile p1 = outfile p"
    by (simp_all add: p1_def)
  consider
      (wrote) r where "ok (status_s p)" "ok s_i" "results p ! i = Some r" "bcf_write_ok io i"
        "p' = p1\<lparr>outfile := outfile p @ [r]\<rparr>"
    | (wfail) r where "ok (status_s p)" "ok s_i" "results p ! i = Some r" "\<not> bcf_write_ok io i"
        "p' = p1\<lparr>status_s := Status_IOError ''bcf_write'' filename\<rparr>"
    | (tfail) "ok (status_s p)" "bad s_i" "p' = p1\<lparr>status_s := s_i, abort := True\<rparr>"
    | (skip) "\<not> ok (status_s p)" "p' = p1"
    using stp i len s_i unfolding p1_def i_def
    by (auto simp: Let_def bad_def split: if_splits option.splits)
  then show ?thesis
  proof cases
    case wrote
    have na: "\<not> abort p" using D wrote(1) by (auto simp: inv_drain_def bad_def)
    have fin: "statuses p ! i = Finished s_i"
      using s_i wrote(2) bad_Invalid[of "[]" "[]"] by (cases "statuses p ! i") (auto simp: bad_def)
    have g: "s_i = fst (genotype_site io i)" "snd (genotype_site io i) = Some r"
      using T fin i wrote(2,3) by (auto simp: inv_tasks_def i_def)
    have wp: "written_prefix io p i" using D wrote(1) by (simp add: inv_drain_def i_def)
    have T': "inv_tasks io n p'"
      by (rule drain_inv_tasks[OF T]) (use i s_i p1 wrote(5) in \<open>simp_all add: i_def\<close>)
    have wp': "written_prefix io p' (Suc i)"
      using wp fin g wrote(2,4,5) p1 by (auto simp: written_prefix_def less_Suc_eq)
    have "inv_drain io filename p'"
      using wp' na wrote(1,5) p1 by (simp add: inv_drain_def bad_def)
    with T' show ?thesis by (simp add: pipe_inv_def)
  next
    case wfail
    have na: "\<not> abort p" using D wfail(1) by (auto simp: inv_drain_def bad_def)
    have fin: "statuses p ! i = Finished s_i"
      using s_i wfail(2) bad_Invalid[of "[]" "[]"] by (cases "statuses p ! i") (auto simp: bad_def)
    have g: "s_i = fst (genotype_site io i)"
      using T fin i by (auto simp: inv_tasks_def)
    have wp: "written_prefix io p i" using D wfail(1) by (simp add: inv_drain_def i_def)
    have T': "inv_tasks io n p'"
      by (rule drain_inv_tasks[OF T]) (use i s_i p1 wfail(5) in \<open>simp_all add: i_def\<close>)
    have "written_prefix io p' i"
      by (rule written_prefix_same[OF wp]) (simp_all add: wfail(5) p1)
    then have fe: "first_error io filename p' i"
      using fin g wfail(2,4,5) p1 na by (simp add: first_error_def bad_def)
    have "inv_drain io filename p'"
      unfolding inv_drain_def
    proof (intro conjI impI)
      show "bad (status_s p')" by (simp add: wfail(5) bad_IOError)
      assume "ok (status_s p')" then show "written_prefix io p' (drain_i p')"
        using bad_IOError[of "''bcf_write''" filename] by (simp add: wfail(5) bad_def)
    next
      show "\<exists>m<drain_i p'. first_error io filename p' m"
        using fe by (intro exI[of _ i]) (simp add: wfail(5) p1)
    qed
    with T' show ?thesis by (simp add: pipe_inv_def)
  next
    case tfail
    have na: "\<not> abort p" using D tfail(1) by (auto simp: inv_drain_def bad_def)
    have "statuses p ! i \<noteq> Cancelled" using T na i by (auto simp: inv_tasks_def)
    then have fin: "statuses p ! i = Finished s_i"
      using s_i by (cases "statuses p ! i") auto
    have g: "s_i = fst (genotype_site io i)"
      using T fin i by (auto simp: inv_tasks_def)
    have wp: "written_prefix io p i" using D tfail(1) by (simp add: inv_drain_def i_def)
    have T': "inv_tasks io n p'"
      by (rule drain_inv_tasks[OF T]) (use i s_i p1 tfail(3) in \<open>simp_all add: i_def\<close>)
    have "written_prefix io p' i"
      by (rule written_prefix_same[OF wp]) (simp_all add: tfail(3) p1)
    then have fe: "first_error io filename p' i"
      using fin g tfail(2,3) p1 by (simp add: first_error_def)
    have "inv_drain io filename p'"
      unfolding inv_drain_def
    proof (intro conjI impI)
      show "bad (status_s p')" using tfail(2) by (simp add: tfail(3))
      assume "ok (status_s p')" then show "written_prefix io p' (drain_i p')"
        using tfail(2) by (simp add: tfail(3) bad_def)
    next
      show "\<exists>m<drain_i p'. first_error io filename p' m"
        using fe by (intro exI[of _ i]) (simp add: tfail(3) p1)
    qed
    with T' show ?thesis by (simp add: pipe_inv_def)
  next
    case skip
    have T': "inv_tasks io n p'"
      by (rule drain_inv_tasks[OF T]) (use i s_i p1 skip(2) in \<open>simp_all add: i_def\<close>)
    from D skip(1) obtain m where m: "m < i" "first_error io filename p m"
      by (auto simp: inv_drain_def bad_def i_def)
    have fe: "first_error io filename p' m"
      by (rule first_error_same[OF m(2)]) (simp_all add: skip(2) p1)
    have "inv_drain io filename p'"
      unfolding inv_drain_def
    proof (intro conjI impI)
      assume "abort p'" then show "bad (status_s p')" using D by (simp add: skip(2) p1 inv_drain_def)
    next
      assume "ok (status_s p')" then show "written_prefix io p' (drain_i p')"
        using skip(1) by (simp add: skip(2) p1)
    next
      show "\<exists>m<drain_i p'. first_error io filename p' m"
        using fe m(1) by (intro exI[of _ m]) (simp add: skip(2) p1)
    qed
    with T' show ?thesis by (simp add: pipe_inv_def)
  qed
qed

lemma step_inv:
  "pipe_inv io filename n p \<Longrightarrow> step io filename e p = Some p' \<Longrightarrow> pipe_inv io filename n p'"
  by (cases e) (auto intro: start_inv finish_inv drain_inv)

lemma run_inv:
  "pipe_inv io filename n p \<Longrightarrow> run io filename es p = Some p' \<Longrightarrow> pipe_inv io filename n p'"
proof (induction es arbitrary: p)
  case Nil
  then show ?case by simp
next
  case (Cons e es)
  then show ?case by (auto split: option.splits dest: step_inv)
qed

lemma reachable_inv: "run io filename es (init n) = Some p \<Longrightarrow> pipe_inv io filename n p"
  using run_inv init_inv by blast

lemma step_bad_frozen:
  assumes "bad (status_s p)" "step io filename e p = Some p'"
  shows "status_s p' = status_s p \<and> abort p' = abort p \<and> outfile p' = outfile p"
proof (cases e)
  case (Start i)
  then show ?thesis using assms(2) by (auto split: if_splits)
next
  case (Finish i)
  then show ?thesis using assms(2) by (auto split: if_splits prod.splits)
next
  case Drain
  then show ?thesis using assms by (auto simp: Let_def bad_def split: if_splits option.splits)
qed

lemma run_bad_frozen:
  "bad (status_s p) \<Longrightarrow> run io filename es p = Some p'
   \<Longrightarrow> status_s p' = status_s p \<and> abort p' = abort p \<and> outfile p' = outfile p"
proof (induction es arbitrary: p)
  case Nil
  then show ?case by simp
next
  case (Cons e es)
  from Cons.prems(2) obtain q where q: "step io filename e p = Some q" "run io filename es q = Some p'"
    by (auto split: option.splits)
  have fr: "status_s q = status_s p \<and> abort q = abort p \<and> outfile q = outfile p"
    using step_bad_frozen[OF Cons.prems(1) q(1)] .
  then have "bad (status_s q)" using Cons.prems(1) by simp
  from Cons.IH[OF this q(2)] fr show ?case by simp
qed

section \<open>A schedule that completes\<close>

text \<open>
  If the genotyper leaves a record whenever it returns OK, the eager schedule takes the drain
  loop through all sites, so that \<open>genotype_sites\<close> returns.
\<close>

lemma run_append:
  "run io filename (es1 @ es2) p =
     (case run io filename es1 p of None \<Rightarrow> None | Some q \<Rightarrow> run io filename es2 q)"
  by (induction es1 arbitrary: p) (auto split: option.splits)

lemma run_phase:
  assumes stp: "\<And>k p. P k p \<Longrightarrow> k < n \<Longrightarrow> \<exists>p'. step io filename (f k) p = Some p' \<and> P (Suc k) p'"
  shows "P k p \<Longrightarrow> k \<le> n \<Longrightarrow> \<exists>p'. run io filename (map f [k..<n]) p = Some p' \<and> P n p'"
proof (induction "n - k" arbitrary: k p)
  case 0
  then show ?case by simp
next
  case (Suc d)
  then have k: "k < n" by simp
  from stp[OF Suc.prems(1) k] obtain q where q: "step io filename (f k) p = Some q" "P (Suc k) q"
    by blast
  have "d = n - Suc k" using Suc.hyps(2) by simp
  from Suc.hyps(1)[OF this q(2)] k obtain p' where
    "run io filename (map f [Suc k..<n]) q = Some p'" "P n p'" by auto
  then show ?case using q(1) k by (simp add: upt_conv_Cons)
qed

lemma start_phase:
  assumes "all_pending_from n k p" "k < n"
  shows "\<exists>p'. step io filename (Start k) p = Some p' \<and> all_pending_from n (Suc k) p'"
  using assms by (auto simp: all_pending_from_def nth_list_update less_Suc_eq)

lemma finish_phase:
  assumes "all_running_from io n k p" "k < n"
  shows "\<exists>p'. step io filename (Finish k) p = Some p' \<and> all_running_from io n (Suc k) p'"
proof -
  obtain ls bcf where g: "genotype_site io k = (ls, bcf)" by (cases "genotype_site io k")
  show ?thesis
  proof (cases "bad ls")
    case True
    then show ?thesis using assms g
      by (auto simp: all_running_from_def nth_list_update less_Suc_eq bad_def)
  next
    case False
    then show ?thesis using assms g
      by (auto simp: all_running_from_def nth_list_update less_Suc_eq bad_def)
  qed
qed

lemma drain_phase:
  assumes "all_returned_from io n k p" "k < n"
  shows "\<exists>p'. step io filename Drain p = Some p' \<and> all_returned_from io n (Suc k) p'"
proof -
  have a: "length (statuses p) = n" "length (results p) = n" "drain_i p = k"
    "statuses p ! k = Finished (fst (genotype_site io k))"
    "ok (fst (genotype_site io k)) \<longrightarrow> results p ! k \<noteq> None"
    using assms by (simp_all add: all_returned_from_def)
  have rest: "\<forall>j. Suc k \<le> j \<and> j < n \<longrightarrow> statuses p ! j = Finished (fst (genotype_site io j))
               \<and> (ok (fst (genotype_site io j)) \<longrightarrow> results p ! j \<noteq> None)"
    using assms by (simp add: all_returned_from_def)
  have "step io filename Drain p \<noteq> None"
    using a assms(2) by (auto simp: Let_def bad_def split: option.splits)
  then obtain p' where p': "step io filename Drain p = Some p'" by blast
  then have "statuses p' = statuses p \<and> results p' = (results p)[k := None] \<and> drain_i p' = Suc k"
    using a assms(2) by (auto simp: Let_def split: if_splits option.splits)
  then have "all_returned_from io n (Suc k) p'"
    using a rest by (auto simp: all_returned_from_def)
  then show ?thesis using p' by blast
qed

lemma eager_schedule_completes:
  assumes "\<forall>i<n. ok (fst (genotype_site io i)) \<longrightarrow> snd (genotype_site io i) \<noteq> None"
  shows "\<exists>p. run io filename (eager_schedule n) (init n) = Some p \<and> drain_i p = n"
proof -
  have "all_pending_from n 0 (init n)" by (simp add: all_pending_from_def init_def)
  from run_phase[of "all_pending_from n" n io filename Start, OF start_phase this]
  obtain p1 where p1: "run io filename (map Start [0..<n]) (init n) = Some p1"
      "all_pending_from n n p1" by auto
  have "all_running_from io n 0 p1" using p1(2) by (simp add: all_pending_from_def all_running_from_def)
  from run_phase[of "all_running_from io n" n io filename Finish, OF finish_phase this]
  obtain p2 where p2: "run io filename (map Finish [0..<n]) p1 = Some p2"
      "all_running_from io n n p2" by auto
  have "all_returned_from io n 0 p2"
    using p2(2) assms by (simp add: all_running_from_def all_returned_from_def)
  from run_phase[of "all_returned_from io n" n io filename "\<lambda>i. Drain", OF drain_phase this]
  obtain p3 where p3: "run io filename (map (\<lambda>i. Drain) [0..<n]) p2 = Some p3"
      "all_returned_from io n n p3" by auto
  have "run io filename (eager_schedule n) (init n) = Some p3"
    using p1(1) p2(1) p3(1) by (simp add: eager_schedule_def run_append)
  moreover have "drain_i p3 = n" using p3(2) by (simp add: all_returned_from_def)
  ultimately show ?thesis by blast
qed

lemma genotype_sites_returns:
  assumes "\<forall>i<n. ok (fst (genotype_site io i)) \<longrightarrow> snd (genotype_site io i) \<noteq> None"
  shows "\<exists>res. genotype_sites svc io sampleset n filename (eager_schedule n) = Some res"
proof -
  from eager_schedule_completes[OF assms] obtain p where
    "run io filename (eager_schedule n) (init n) = Some p" "drain_i p = n" by blast
  then show ?thesis
    by (auto simp: genotype_sites_def split: prod.splits option.splits)
qed

section \<open>Further properties of discovery\<close>

lemma alt_loop_sorted:
  "sorted_wrt (<) (map fst m) \<Longrightarrow> sorted_wrt (<) (map fst (fst (alt_loop rng obs als i (m, b))))"
  by (induction als arbitrary: i m b) (simp_all add: map_insert_sorted)

lemma process_record_sorted:
  assumes "process_record d ps r m = Inr m'" "sorted_wrt (<) (map fst m)"
  shows "sorted_wrt (<) (map fst m')"
proof -
  have v: "valid_dna (map toupper (ref_allele r))"
    using process_record_Inr_valid[OF assms(1)] .
  show ?thesis
    using assms unfolding process_record_good_ref[OF v]
    by (auto simp: map_insert_sorted alt_loop_sorted split: if_splits)
qed

lemma records_loop_sorted:
  "records_loop d ps rs m = Inr m' \<Longrightarrow> sorted_wrt (<) (map fst m)
   \<Longrightarrow> sorted_wrt (<) (map fst m')"
proof (induction rs arbitrary: m)
  case Nil
  then show ?case by simp
next
  case (Cons r rs)
  then obtain m1 where m1: "process_record d ps r m = Inr m1" "records_loop d ps rs m1 = Inr m'"
    by (auto split: sum.splits)
  show ?case using Cons.IH[OF m1(2) process_record_sorted[OF m1(1) Cons.prems(2)]] .
qed

lemma merge_foldl_sorted:
  "sorted_wrt (<) (map fst dest)
   \<Longrightarrow> sorted_wrt (<) (map fst (foldl (\<lambda>d e. merge_entry e d) dest src))"
  by (induction src arbitrary: dest) (simp_all add: merge_entry_sorted)

lemma merge_sorted:
  "sorted_wrt (<) (map fst dest)
   \<Longrightarrow> sorted_wrt (<) (map fst (snd (merge_discovered_alleles src dest)))"
  by (simp add: merge_discovered_alleles_def merge_foldl_sorted)

lemma datasets_loop_sorted:
  "datasets_loop svc pos ds ans = (s, ans') \<Longrightarrow> sorted_wrt (<) (map fst ans)
   \<Longrightarrow> sorted_wrt (<) (map fst ans')"
proof (induction ds arbitrary: ans)
  case Nil
  then show ?case by simp
next
  case (Cons d ds)
  show ?case
  proof (cases "bad (fst (dataset_range_and_header svc d pos))")
    case True
    then show ?thesis using Cons.prems by (simp add: datasets_loop_Cons)
  next
    case False
    show ?thesis
    proof (cases "records_loop d (range_str svc pos) (snd (dataset_range_and_header svc d pos)) []")
      case (Inl e)
      then show ?thesis using Cons.prems False by (simp add: datasets_loop_Cons)
    next
      case (Inr dsals)
      have "datasets_loop svc pos ds (snd (merge_discovered_alleles dsals ans)) = (s, ans')"
        using Cons.prems(1) False Inr by (simp add: datasets_loop_Cons)
      from Cons.IH[OF this merge_sorted[OF Cons.prems(2)]] show ?thesis .
    qed
  qed
qed

lemma datasets_loop_cong:
  "dataset_range_and_header svc1 = dataset_range_and_header svc2 \<Longrightarrow> range_str svc1 = range_str svc2
   \<Longrightarrow> datasets_loop svc1 pos ds ans = datasets_loop svc2 pos ds ans"
proof (induction ds arbitrary: ans)
  case Nil
  then show ?case by simp
next
  case (Cons d ds)
  then show ?case by (simp add: datasets_loop_Cons split: sum.splits)
qed

lemma length_filter_concat:
  "real (length (filter P (concat xss))) = (\<Sum>xs\<leftarrow>xss. real (length (filter P xs)))"
  by (induction xss) simp_all

lemma datasets_loop_fail_here:
  assumes "ok (fst (dataset_range_and_header svc d pos))"
    "records_loop d (range_str svc pos) (snd (dataset_range_and_header svc d pos)) [] = Inl e"
  shows "datasets_loop svc pos (d # ds) ans = (e, ans)"
  using assms by (simp add: datasets_loop_Cons bad_def)

lemma count_of_absent: "k \<notin> fst ` set m \<Longrightarrow> count_of m k = 0"
proof -
  assume "k \<notin> fst ` set m"
  then have "map_of m k = None" by (simp add: map_of_eq_None_iff)
  then show ?thesis by (simp add: count_of_def)
qed

lemma count_of_Cons:
  "count_of ((k, ai) # m) k' = (if k' = k then observation_count ai else count_of m k')"
  by (simp add: count_of_def)

lemma merge_entry_count:
  "sorted_wrt (<) (map fst m) \<Longrightarrow>
   count_of (merge_entry (k, ai) m) k'
     = count_of m k' + (if k' = k then observation_count ai else 0)"
proof (induction m)
  case Nil
  then show ?case by (simp add: count_of_def)
next
  case (Cons e m)
  obtain k0 ai0 where e: "e = (k0, ai0)" by (cases e)
  have srt: "sorted_wrt (<) (map fst m)" "\<forall>x\<in>fst ` set m. k0 < x"
    using Cons.prems e by auto
  show ?case
  proof (cases "k < k0")
    case True
    then have "k \<notin> fst ` set (e # m)" using srt(2) e by auto
    then have "count_of (e # m) k = 0" by (rule count_of_absent)
    then show ?thesis using True e by (auto simp: count_of_Cons)
  next
    case False
    show ?thesis
    proof (cases "k = k0")
      case True
      then show ?thesis using e by (simp add: count_of_Cons)
    next
      case neq: False
      then show ?thesis using False e Cons.IH[OF srt(1)] by (simp add: count_of_Cons)
    qed
  qed
qed

lemma merge_foldl_count:
  "sorted_wrt (<) (map fst dest) \<Longrightarrow> distinct (map fst src) \<Longrightarrow>
   count_of (foldl (\<lambda>d e. merge_entry e d) dest src) k = count_of dest k + count_of src k"
proof (induction src arbitrary: dest)
  case Nil
  then show ?case by (simp add: count_of_def)
next
  case (Cons e src)
  obtain k0 ai0 where e: "e = (k0, ai0)" by (cases e)
  have d: "distinct (map fst src)" "k0 \<notin> fst ` set src" using Cons.prems(2) e by auto
  have s: "sorted_wrt (<) (map fst (merge_entry (k0, ai0) dest))"
    using Cons.prems(1) by (rule merge_entry_sorted)
  have "count_of (foldl (\<lambda>d e. merge_entry e d) dest (e # src)) k
          = count_of (merge_entry (k0, ai0) dest) k + count_of src k"
    using Cons.IH[OF s d(1)] e by simp
  also have "\<dots> = count_of dest k + (if k = k0 then observation_count ai0 else 0) + count_of src k"
    using merge_entry_count[OF Cons.prems(1)] by simp
  also have "\<dots> = count_of dest k + count_of (e # src) k"
    using count_of_absent[OF d(2)] e by (simp add: count_of_Cons)
  finally show ?case .
qed

lemma merge_count:
  "sorted_wrt (<) (map fst dest) \<Longrightarrow> distinct (map fst src) \<Longrightarrow>
   count_of (snd (merge_discovered_alleles src dest)) k = count_of dest k + count_of src k"
  by (simp add: merge_discovered_alleles_def merge_foldl_count)

lemma dataset_alleles_Inr:
  "records_loop d (range_str svc pos) (snd (dataset_range_and_header svc d pos)) [] = Inr dsals
   \<Longrightarrow> dataset_alleles svc pos d = dsals"
  by (simp add: dataset_alleles_def)

lemma datasets_loop_count:
  "datasets_loop svc pos ds ans = (s, ans') \<Longrightarrow> ok s \<Longrightarrow> sorted_wrt (<) (map fst ans)
   \<Longrightarrow> count_of ans' k = count_of ans k + (\<Sum>d\<leftarrow>ds. count_of (dataset_alleles svc pos d) k)"
proof (induction ds arbitrary: ans)
  case Nil
  then show ?case by simp
next
  case (Cons d ds)
  have nb: "\<not> bad (fst (dataset_range_and_header svc d pos))"
    using Cons.prems(1,2) by (auto simp: datasets_loop_Cons bad_def split: if_splits)
  then obtain dsals where dsals:
    "records_loop d (range_str svc pos) (snd (dataset_range_and_header svc d pos)) [] = Inr dsals"
    using Cons.prems(1,2) records_loop_Inl_bad
    by (fastforce simp: datasets_loop_Cons bad_def split: if_splits sum.splits)
  have rest: "datasets_loop svc pos ds (snd (merge_discovered_alleles dsals ans)) = (s, ans')"
    using Cons.prems(1) nb dsals by (simp add: datasets_loop_Cons)
  have sd: "sorted_wrt (<) (map fst dsals)" using records_loop_sorted[OF dsals] by simp
  then have dd: "distinct (map fst dsals)" by (simp add: strict_sorted_iff)
  have sm: "sorted_wrt (<) (map fst (snd (merge_discovered_alleles dsals ans)))"
    using Cons.prems(3) by (rule merge_sorted)
  have "count_of ans' k = count_of (snd (merge_discovered_alleles dsals ans)) k
                           + (\<Sum>d\<leftarrow>ds. count_of (dataset_alleles svc pos d) k)"
    using Cons.IH[OF rest Cons.prems(2) sm] .
  also have "count_of (snd (merge_discovered_alleles dsals ans)) k = count_of ans k + count_of dsals k"
    using merge_count[OF Cons.prems(3) dd] .
  finally show ?case using dataset_alleles_Inr[OF dsals] by simp
qed

lemma dataset_alleles_entries:
  assumes "e \<in> set (dataset_alleles svc pos d)"
  shows "\<exists>r\<in>set (snd (dataset_range_and_header svc d pos)). \<exists>a<n_allele r.
           fst e = (rec_range r, map toupper ((ref_allele r # alt_alleles r) ! a))
           \<and> observation_count (snd e) = obs_counts_of r ! a"
proof (cases "records_loop d (range_str svc pos) (snd (dataset_range_and_header svc d pos)) []")
  case (Inl s)
  then show ?thesis using assms by (simp add: dataset_alleles_def)
next
  case (Inr dsals)
  then have "e \<in> set dsals" using assms by (simp add: dataset_alleles_def)
  from records_loop_entries[OF Inr this]
  obtain r where r: "r \<in> set (snd (dataset_range_and_header svc d pos))"
    "(\<exists>j<length (alt_alleles r).
           e = ((rec_range r, map toupper (alt_alleles r ! j)),
                \<lparr>is_ref = False, observation_count = obs_counts_of r ! Suc j\<rparr>))
     \<or> e = ((rec_range r, map toupper (ref_allele r)),
              \<lparr>is_ref = True, observation_count = obs_counts_of r ! 0\<rparr>)"
    by auto
  from r(2) have "\<exists>a<n_allele r.
           fst e = (rec_range r, map toupper ((ref_allele r # alt_alleles r) ! a))
           \<and> observation_count (snd e) = obs_counts_of r ! a"
  proof
    assume "\<exists>j<length (alt_alleles r).
           e = ((rec_range r, map toupper (alt_alleles r ! j)),
                \<lparr>is_ref = False, observation_count = obs_counts_of r ! Suc j\<rparr>)"
    then obtain j where j: "j < length (alt_alleles r)"
      "e = ((rec_range r, map toupper (alt_alleles r ! j)),
                \<lparr>is_ref = False, observation_count = obs_counts_of r ! Suc j\<rparr>)" by blast
    then have "Suc j < n_allele r
           \<and> fst e = (rec_range r, map toupper ((ref_allele r # alt_alleles r) ! Suc j))
           \<and> observation_count (snd e) = obs_counts_of r ! Suc j"
      by (simp add: n_allele_def)
    then show ?thesis by blast
  next
    assume "e = ((rec_range r, map toupper (ref_allele r)),
              \<lparr>is_ref = True, observation_count = obs_counts_of r ! 0\<rparr>)"
    then have "0 < n_allele r
           \<and> fst e = (rec_range r, map toupper ((ref_allele r # alt_alleles r) ! 0))
           \<and> observation_count (snd e) = obs_counts_of r ! 0"
      by (simp add: n_allele_def)
    then show ?thesis by blast
  qed
  then show ?thesis using r(1) by blast
qed

lemma calls_of_reference_replicate:
  "length (filter (\<lambda>g. g \<noteq> bcf_int32_vector_end \<and> bcf_gt_allele g = int 0) (replicate c 2)) = c"
  by (simp add: bcf_int32_vector_end_def bcf_gt_allele_def)

lemma calls_of_reference_samples:
  "length (filter (\<lambda>g. g \<noteq> bcf_int32_vector_end \<and> bcf_gt_allele g = int 0)
             (concat (replicate c [2, 2]))) = 2 * c"
  by (induction c) (simp_all add: bcf_int32_vector_end_def bcf_gt_allele_def)

lemma obs_counts_of_reference_replicate:
  "obs_counts_of (ex_record b ref alts (replicate c 2)) ! 0 = min (real c) 16777216"
proof -
  have "0 < n_allele (ex_record b ref alts (replicate c 2))" by (simp add: n_allele_def)
  from obs_counts_of_nth[OF this] show ?thesis
    by (simp only: calls_of_reference_replicate ex_record_def bcf1.simps)
qed

lemma obs_counts_of_reference_samples:
  "obs_counts_of (ex_record b ref alts (concat (replicate c [2, 2]))) ! 0
     = min (real (2 * c)) 16777216"
proof -
  have "0 < n_allele (ex_record b ref alts (concat (replicate c [2, 2])))" by (simp add: n_allele_def)
  from obs_counts_of_nth[OF this] show ?thesis
    by (simp only: calls_of_reference_samples ex_record_def bcf1.simps)
qed

section \<open>Claims about allele discovery\<close>

text \<open>
  C3, as amended. When \<open>discover_alleles\<close> returns an error, the map the caller passed in is
  not restored or cleared. If resolving the sample set failed, the caller's map is untouched.
  Otherwise the map holds exactly the merged alleles of the datasets before the failing one,
  each of them processed completely: the failing dataset itself contributes nothing, and
  after a failure of the final reference check the map holds the alleles of all datasets.
\<close>

theorem discover_alleles_error_keeps_merged_prefix:
  assumes res: "sampleset_datasets svc sampleset = (s0, samples, datasets)"
    and fail: "discover_alleles svc sampleset pos ans0 = (st, ans)" "bad st"
  shows "(bad s0 \<and> st = s0 \<and> ans = ans0)
         \<or> (ok s0 \<and> (\<exists>k\<le>length datasets.
               datasets_loop svc pos (take k datasets) [] = (Status_OK, ans)
               \<and> (if k < length datasets
                  then datasets_loop svc pos [datasets ! k] ans = (st, ans)
                  else st = check_refs (range_str_contigs svc) ans)))"
proof (cases "bad s0")
  case True
  then show ?thesis using discover_alleles_unresolved[OF res True, of pos ans0] fail(1) by simp
next
  case False
  then have ok0: "ok s0" by (simp add: bad_def)
  obtain s1 a1 where loop: "datasets_loop svc pos datasets [] = (s1, a1)"
    by (cases "datasets_loop svc pos datasets []")
  have d: "(st, ans) = (if bad s1 then (s1, a1) else (check_refs (range_str_contigs svc) a1, a1))"
    using discover_alleles_resolved[OF res ok0, of pos ans0] fail(1) loop by simp
  show ?thesis
  proof (cases "bad s1")
    case True
    then have eq: "st = s1" "ans = a1" using d by simp_all
    from datasets_loop_fail_prefix[OF loop True] obtain k where k: "k < length datasets"
      "datasets_loop svc pos (take k datasets) [] = (Status_OK, a1)"
      "datasets_loop svc pos [datasets ! k] a1 = (s1, a1)" by blast
    have "k \<le> length datasets \<and> datasets_loop svc pos (take k datasets) [] = (Status_OK, ans)
               \<and> (if k < length datasets
                  then datasets_loop svc pos [datasets ! k] ans = (st, ans)
                  else st = check_refs (range_str_contigs svc) ans)"
      using k eq by simp
    then show ?thesis using ok0 by blast
  next
    case nb: False
    then have eq: "st = check_refs (range_str_contigs svc) a1" "ans = a1" using d by simp_all
    have "s1 = Status_OK" using datasets_loop_ok_status[OF loop] nb by (simp add: bad_def)
    then have "length datasets \<le> length datasets
               \<and> datasets_loop svc pos (take (length datasets) datasets) [] = (Status_OK, ans)
               \<and> (if length datasets < length datasets
                  then datasets_loop svc pos [datasets ! length datasets] ans = (st, ans)
                  else st = check_refs (range_str_contigs svc) ans)"
      using loop eq by simp
    then show ?thesis using ok0 by blast
  qed
qed

text \<open>
  Two datasets, the second of which cannot be fetched: the caller sees the error together
  with the alleles of the first dataset, which is the state after the first dataset alone.
\<close>

theorem discover_alleles_error_keeps_merged_prefix_witness:
  "sampleset_datasets ex_svc_fetch_fails ''cohort''
     = (Status_OK, [''sample1'', ''sample2''], [''d1'', ''d2''])
   \<and> discover_alleles ex_svc_fetch_fails ''cohort'' (0, 0, 1000) []
     = (Status_Failure ''dataset_range_and_header'' ''d2'',
        [(((0, 100, 101), ''A''), \<lparr>is_ref = True, observation_count = 1\<rparr>),
         (((0, 100, 101), ''C''), \<lparr>is_ref = False, observation_count = 3\<rparr>)])
   \<and> bad (Status_Failure ''dataset_range_and_header'' ''d2'')
   \<and> \<not> bad Status_OK
   \<and> (\<exists>k\<le>length [''d1'', ''d2''].
        datasets_loop ex_svc_fetch_fails (0, 0, 1000) (take k [''d1'', ''d2'']) []
          = (Status_OK,
             [(((0, 100, 101), ''A''), \<lparr>is_ref = True, observation_count = 1\<rparr>),
              (((0, 100, 101), ''C''), \<lparr>is_ref = False, observation_count = 3\<rparr>)]))"
proof -
  have r: "sampleset_datasets ex_svc_fetch_fails ''cohort''
     = (Status_OK, [''sample1'', ''sample2''], [''d1'', ''d2''])"
    by code_simp
  have f: "discover_alleles ex_svc_fetch_fails ''cohort'' (0, 0, 1000) []
     = (Status_Failure ''dataset_range_and_header'' ''d2'',
        [(((0, 100, 101), ''A''), \<lparr>is_ref = True, observation_count = 1\<rparr>),
         (((0, 100, 101), ''C''), \<lparr>is_ref = False, observation_count = 3\<rparr>)])"
    by code_simp
  have b: "bad (Status_Failure ''dataset_range_and_header'' ''d2'')" by code_simp
  have nb: "\<not> bad Status_OK" by code_simp
  from discover_alleles_error_keeps_merged_prefix[OF r f b] nb
  have "\<exists>k\<le>length [''d1'', ''d2''].
        datasets_loop ex_svc_fetch_fails (0, 0, 1000) (take k [''d1'', ''d2'']) []
          = (Status_OK,
             [(((0, 100, 101), ''A''), \<lparr>is_ref = True, observation_count = 1\<rparr>),
              (((0, 100, 101), ''C''), \<lparr>is_ref = False, observation_count = 3\<rparr>)])"
    by blast
  then show ?thesis using r f b nb by blast
qed

text \<open>
  The claim as first stated fails: the call below returns the fetch error of dataset \<open>d2\<close>,
  and the caller's map, empty before the call, holds the two alleles of dataset \<open>d1\<close>.
\<close>

theorem discover_alleles_partial_result_counterexample:
  "fst (discover_alleles ex_svc_fetch_fails ''cohort'' (0, 0, 1000) [])
     = Status_Failure ''dataset_range_and_header'' ''d2''
   \<and> bad (fst (discover_alleles ex_svc_fetch_fails ''cohort'' (0, 0, 1000) []))
   \<and> snd (discover_alleles ex_svc_fetch_fails ''cohort'' (0, 0, 1000) [])
     = [(((0, 100, 101), ''A''), \<lparr>is_ref = True, observation_count = 1\<rparr>),
        (((0, 100, 101), ''C''), \<lparr>is_ref = False, observation_count = 3\<rparr>)]
   \<and> snd (discover_alleles ex_svc_fetch_fails ''cohort'' (0, 0, 1000) []) \<noteq> []"
  by code_simp

text \<open>
  C4 does not hold of the code. A dataset holds two records at the same range with reference
  A, observed three times in each. The per-dataset map keeps the count of the first record,
  3, because \<open>std::map::insert\<close> leaves an existing key alone; the merge rule, applied to the
  entries of the second record, gives 6.
\<close>

theorem per_dataset_insert_keeps_first_count:
  "obs_counts_of (ex_record 100 ''A'' [''C''] [2, 4, 2, 2]) = [3, 1]
   \<and> obs_counts_of (ex_record 100 ''A'' [''G''] [2, 2, 2, 4]) = [3, 1]
   \<and> records_loop ''d1'' (ex_range_str (0, 0, 1000))
        [ex_record 100 ''A'' [''C''] [2, 4, 2, 2], ex_record 100 ''A'' [''G''] [2, 2, 2, 4]] []
      = Inr [(((0, 100, 101), ''A''), \<lparr>is_ref = True, observation_count = 3\<rparr>),
             (((0, 100, 101), ''C''), \<lparr>is_ref = False, observation_count = 1\<rparr>),
             (((0, 100, 101), ''G''), \<lparr>is_ref = False, observation_count = 1\<rparr>)]
   \<and> discover_alleles ex_svc_split_site ''cohort'' (0, 0, 1000) []
      = (Status_OK,
         [(((0, 100, 101), ''A''), \<lparr>is_ref = True, observation_count = 3\<rparr>),
          (((0, 100, 101), ''C''), \<lparr>is_ref = False, observation_count = 1\<rparr>),
          (((0, 100, 101), ''G''), \<lparr>is_ref = False, observation_count = 1\<rparr>)])
   \<and> (case records_loop ''d1'' (ex_range_str (0, 0, 1000))
              [ex_record 100 ''A'' [''C''] [2, 4, 2, 2]] [] of
         Inl e \<Rightarrow> []
       | Inr first \<Rightarrow>
          (case records_loop ''d1'' (ex_range_str (0, 0, 1000))
                  [ex_record 100 ''A'' [''G''] [2, 2, 2, 4]] [] of
             Inl e \<Rightarrow> []
           | Inr second \<Rightarrow> snd (merge_discovered_alleles second first)))
      = [(((0, 100, 101), ''A''), \<lparr>is_ref = True, observation_count = 6\<rparr>),
         (((0, 100, 101), ''C''), \<lparr>is_ref = False, observation_count = 1\<rparr>),
         (((0, 100, 101), ''G''), \<lparr>is_ref = False, observation_count = 1\<rparr>)]"
  by code_simp

text \<open>
  C5, as amended. After all datasets are merged, \<open>discover_alleles\<close> visits the ranges of the
  discovered alleles in ascending order and stops at the first range whose group does not
  hold exactly one allele flagged \<open>is_ref\<close>. If that group holds more than one flagged allele
  (their sequences are pairwise distinct), the call returns the reference-inconsistency error
  naming that range and all its flagged sequences; if it holds none, the missing-reference
  error naming that range. A violation at a later range is not reported. If no range
  violates, the call returns OK. In each case the caller receives the accumulated set.
\<close>

theorem check_refs_reports_first_range:
  assumes res: "sampleset_datasets svc sampleset = (s0, samples, datasets)" "ok s0"
    and loop: "datasets_loop svc pos datasets [] = (s1, ans)" "ok s1"
  shows "discover_alleles svc sampleset pos ans0 =
           (let V = {rng \<in> (\<lambda>e. fst (fst e)) ` set ans.
                       length (refs_at (refcheck_of ans) rng) \<noteq> 1}
            in if V = {} then Status_OK
               else if length (refs_at (refcheck_of ans) (Min V)) > 1
               then Status_Invalid ''data sets contain inconsistent reference alleles''
                      (range_str_contigs svc (Min V)
                       @ concat (map (\<lambda>r. CHR '' '' # r) (refs_at (refcheck_of ans) (Min V))))
               else Status_Invalid ''data sets contain no reference allele''
                      (range_str_contigs svc (Min V)),
            ans)
         \<and> (\<forall>rng. distinct (refs_at (refcheck_of ans) rng)
                  \<and> set (refs_at (refcheck_of ans) rng)
                      = {dna. \<exists>ai. ((rng, dna), ai) \<in> set ans \<and> is_ref ai})"
proof -
  have "discover_alleles svc sampleset pos ans0 = (check_refs (range_str_contigs svc) ans, ans)"
    using discover_alleles_resolved[OF res, of pos ans0] loop by (simp add: bad_def)
  then have a: "discover_alleles svc sampleset pos ans0 =
           (let V = {rng \<in> (\<lambda>e. fst (fst e)) ` set ans.
                       length (refs_at (refcheck_of ans) rng) \<noteq> 1}
            in if V = {} then Status_OK
               else if length (refs_at (refcheck_of ans) (Min V)) > 1
               then Status_Invalid ''data sets contain inconsistent reference alleles''
                      (range_str_contigs svc (Min V)
                       @ concat (map (\<lambda>r. CHR '' '' # r) (refs_at (refcheck_of ans) (Min V))))
               else Status_Invalid ''data sets contain no reference allele''
                      (range_str_contigs svc (Min V)),
            ans)"
    by (simp only: check_refs_Min)
  have "sorted_wrt (<) (map fst ans)"
    using datasets_loop_sorted[OF loop(1)] by simp
  then have "distinct (map fst ans)" by (simp add: strict_sorted_iff)
  then have b: "\<forall>rng. distinct (refs_at (refcheck_of ans) rng)
                  \<and> set (refs_at (refcheck_of ans) rng)
                      = {dna. \<exists>ai. ((rng, dna), ai) \<in> set ans \<and> is_ref ai}"
    using refs_at_distinct refs_at_set by blast
  show ?thesis using a b by blast
qed

text \<open>
  Two datasets that disagree on the reference at the ranges 100 and 200: the error names the
  range 100 with its two references A and G.
\<close>

theorem check_refs_reports_first_range_witness:
  "sampleset_datasets ex_svc_two_conflicts ''cohort''
     = (Status_OK, [''sample1'', ''sample2''], [''d1'', ''d2''])
   \<and> datasets_loop ex_svc_two_conflicts (0, 0, 1000) [''d1'', ''d2''] []
     = (Status_OK, ex_ans_two_conflicts)
   \<and> distinct (refs_at (refcheck_of ex_ans_two_conflicts) (0, 100, 101))
   \<and> set (refs_at (refcheck_of ex_ans_two_conflicts) (0, 100, 101))
       = {dna. \<exists>ai. (((0, 100, 101), dna), ai) \<in> set ex_ans_two_conflicts \<and> is_ref ai}
   \<and> refs_at (refcheck_of ex_ans_two_conflicts) (0, 100, 101) = [''A'', ''G'']"
proof -
  have r: "sampleset_datasets ex_svc_two_conflicts ''cohort''
     = (Status_OK, [''sample1'', ''sample2''], [''d1'', ''d2''])"
    by code_simp
  have o: "ok Status_OK" by code_simp
  have l: "datasets_loop ex_svc_two_conflicts (0, 0, 1000) [''d1'', ''d2''] []
     = (Status_OK, ex_ans_two_conflicts)"
    by code_simp
  have v: "refs_at (refcheck_of ex_ans_two_conflicts) (0, 100, 101) = [''A'', ''G'']"
    by code_simp
  from check_refs_reports_first_range[OF r o l o]
  have "distinct (refs_at (refcheck_of ex_ans_two_conflicts) (0, 100, 101))
   \<and> set (refs_at (refcheck_of ex_ans_two_conflicts) (0, 100, 101))
       = {dna. \<exists>ai. (((0, 100, 101), dna), ai) \<in> set ex_ans_two_conflicts \<and> is_ref ai}"
    by blast
  then show ?thesis using r l v by blast
qed

text \<open>
  The claim as first stated fails where two ranges violate the invariant: the group of the
  range 200 holds the two flagged sequences C and T, but the error that is returned names
  the range 100 and the sequences A and G.
\<close>

theorem check_refs_every_range_counterexample:
  "snd (discover_alleles ex_svc_two_conflicts ''cohort'' (0, 0, 1000) []) = ex_ans_two_conflicts
   \<and> (0, 200, 201) \<in> set (ranges_of ex_ans_two_conflicts)
   \<and> refs_at (refcheck_of ex_ans_two_conflicts) (0, 200, 201) = [''C'', ''T'']
   \<and> fst (discover_alleles ex_svc_two_conflicts ''cohort'' (0, 0, 1000) [])
      = Status_Invalid ''data sets contain inconsistent reference alleles'' ''<0>:101-101 A G''
   \<and> fst (discover_alleles ex_svc_two_conflicts ''cohort'' (0, 0, 1000) [])
      \<noteq> Status_Invalid ''data sets contain inconsistent reference alleles''
           (range_str_contigs ex_svc_two_conflicts (0, 200, 201) @ '' C T'')"
  by code_simp

text \<open>
  The filter on alternative alleles. Let all datasets be processed without error. For every
  record of every dataset and every alternative allele of it, the allele (the record's range
  with the uppercased sequence) is a key of the discovered set if and only if the uppercased
  sequence is non-empty and consists of A, C, G and T only. In the per-dataset map every
  entry that is not a reference carries the tally of a qualifying alternative allele of some
  record, which need not be the last record that offers the allele. No allele of the
  discovered set has a sequence that is empty or contains another symbol.
\<close>

lemma alt_allele_discovered_iff_dna:
  assumes res: "sampleset_datasets svc sampleset = (s0, samples, datasets)" "ok s0"
    and loop: "datasets_loop svc pos datasets [] = (s1, ans)" "ok s1"
    and r: "d \<in> set datasets" "r \<in> set (snd (dataset_range_and_header svc d pos))"
      "j < length (alt_alleles r)"
  shows "snd (discover_alleles svc sampleset pos ans0) = ans
     \<and> ((rec_range r, map toupper (alt_alleles r ! j)) \<in> fst ` set ans
          \<longleftrightarrow> valid_dna (map toupper (alt_alleles r ! j)))
     \<and> (\<exists>dsals. records_loop d (range_str svc pos) (snd (dataset_range_and_header svc d pos)) []
                  = Inr dsals
          \<and> fst ` set dsals \<subseteq> fst ` set ans
          \<and> (\<forall>e\<in>set dsals. \<not> is_ref (snd e) \<longrightarrow>
                (\<exists>r'\<in>set (snd (dataset_range_and_header svc d pos)).
                   \<exists>j'<length (alt_alleles r').
                     e = ((rec_range r', map toupper (alt_alleles r' ! j')),
                          \<lparr>is_ref = False, observation_count = obs_counts_of r' ! Suc j'\<rparr>)
                     \<and> valid_dna (map toupper (alt_alleles r' ! j')))))
     \<and> (\<forall>k\<in>fst ` set ans. valid_dna (snd k))"
proof -
  have a: "snd (discover_alleles svc sampleset pos ans0) = ans"
    using discover_alleles_resolved[OF res, of pos ans0] loop by (simp add: bad_def)
  have dna: "\<forall>k\<in>fst ` set ans. valid_dna (snd k)"
    using datasets_loop_dna[OF loop(1)] by simp
  from datasets_loop_ok_contains[OF loop r(1)] obtain dsals where dsals:
    "records_loop d (range_str svc pos) (snd (dataset_range_and_header svc d pos)) [] = Inr dsals"
    "fst ` set dsals \<subseteq> fst ` set ans" by blast
  have alt: "alt_alleles r ! j \<in> set (alt_alleles r)" using r(3) by simp
  have iff: "(rec_range r, map toupper (alt_alleles r ! j)) \<in> fst ` set ans
          \<longleftrightarrow> valid_dna (map toupper (alt_alleles r ! j))"
  proof
    assume "(rec_range r, map toupper (alt_alleles r ! j)) \<in> fst ` set ans"
    then show "valid_dna (map toupper (alt_alleles r ! j))" using dna by fastforce
  next
    assume "valid_dna (map toupper (alt_alleles r ! j))"
    from records_loop_alt_key[OF dsals(1) r(2) alt this] dsals(2)
    show "(rec_range r, map toupper (alt_alleles r ! j)) \<in> fst ` set ans" by blast
  qed
  have prov: "\<forall>e\<in>set dsals. \<not> is_ref (snd e) \<longrightarrow>
                (\<exists>r'\<in>set (snd (dataset_range_and_header svc d pos)).
                   \<exists>j'<length (alt_alleles r').
                     e = ((rec_range r', map toupper (alt_alleles r' ! j')),
                          \<lparr>is_ref = False, observation_count = obs_counts_of r' ! Suc j'\<rparr>)
                     \<and> valid_dna (map toupper (alt_alleles r' ! j')))"
  proof (intro ballI impI)
    fix e assume e: "e \<in> set dsals" "\<not> is_ref (snd e)"
    from records_loop_entries[OF dsals(1) e(1)] e(2)
    show "\<exists>r'\<in>set (snd (dataset_range_and_header svc d pos)).
                   \<exists>j'<length (alt_alleles r').
                     e = ((rec_range r', map toupper (alt_alleles r' ! j')),
                          \<lparr>is_ref = False, observation_count = obs_counts_of r' ! Suc j'\<rparr>)
                     \<and> valid_dna (map toupper (alt_alleles r' ! j'))"
      by fastforce
  qed
  show ?thesis using a iff dsals prov dna by blast
qed

text \<open>
  C6 does not hold of the code. A dataset holds two records at the same range that both
  carry the alternative allele C, which passes the DNA test; its tally is 1 in the first
  record and 4 in the second. The claim has the second record add C with \<open>is_ref\<close> false and
  the tally 4 (the merge rule would leave the sum 5). The code passes the entry to
  \<open>std::map::insert\<close>, which leaves the existing key alone, so the per-dataset map and the
  returned set hold C with the count 1 of the first record. This is the defect of C4.
\<close>

theorem repeated_alt_keeps_first_entry:
  "obs_counts_of (ex_record 100 ''A'' [''C''] [2, 4, 2, 2]) = [3, 1]
   \<and> obs_counts_of (ex_record 100 ''A'' [''C''] [4, 4, 4, 4]) = [0, 4]
   \<and> valid_dna (map toupper ''C'')
   \<and> records_loop ''d1'' (ex_range_str (0, 0, 1000))
        [ex_record 100 ''A'' [''C''] [2, 4, 2, 2], ex_record 100 ''A'' [''C''] [4, 4, 4, 4]] []
      = Inr [(((0, 100, 101), ''A''), \<lparr>is_ref = True, observation_count = 3\<rparr>),
             (((0, 100, 101), ''C''), \<lparr>is_ref = False, observation_count = 1\<rparr>)]
   \<and> discover_alleles ex_svc_repeated_alt ''cohort'' (0, 0, 1000) []
      = (Status_OK,
         [(((0, 100, 101), ''A''), \<lparr>is_ref = True, observation_count = 3\<rparr>),
          (((0, 100, 101), ''C''), \<lparr>is_ref = False, observation_count = 1\<rparr>)])"
  by code_simp

text \<open>
  The treatment of the reference allele of a record \<open>r\<close> of a dataset \<open>d\<close>, reached after
  the earlier datasets and the earlier records of \<open>d\<close> went through. If the uppercased
  reference allele is empty or not DNA, the whole call returns at once the invalid-reference
  error built from the dataset, the sequence and the text of the requested range, whether or
  not an alternative allele qualified. If the reference passes and some alternative allele
  qualified, the reference is passed to the map's insert with \<open>is_ref\<close> true and its tally,
  which enters the map only if the allele was not in it before. If the reference passes and
  no alternative allele qualified, the record leaves the map unchanged.
\<close>

lemma reference_allele_registration:
  "(sampleset_datasets svc sampleset = (s0, samples, ds1 @ d # ds2) \<and> ok s0
      \<and> datasets_loop svc pos ds1 [] = (s1, ans1) \<and> ok s1
      \<and> dataset_range_and_header svc d pos = (s2, rs1 @ r # rs2) \<and> ok s2
      \<and> records_loop d (range_str svc pos) rs1 [] = Inr m1
      \<and> \<not> valid_dna (map toupper (ref_allele r))
    \<longrightarrow> process_record d (range_str svc pos) r m1
          = Inl (Status_Invalid ''invalid reference allele''
                   (d @ '' '' @ map toupper (ref_allele r) @ ''@'' @ range_str svc pos))
        \<and> discover_alleles svc sampleset pos ans0
          = (Status_Invalid ''invalid reference allele''
               (d @ '' '' @ map toupper (ref_allele r) @ ''@'' @ range_str svc pos), ans1))
   \<and> (valid_dna (map toupper (ref_allele r))
      \<and> (\<exists>a\<in>set (alt_alleles r). valid_dna (map toupper a))
    \<longrightarrow> process_record d ps r m
          = Inr (map_insert ((rec_range r, map toupper (ref_allele r)),
                             \<lparr>is_ref = True, observation_count = obs_counts_of r ! 0\<rparr>)
                   (fst (alt_loop (rec_range r) (obs_counts_of r) (alt_alleles r) 1 (m, False))))
        \<and> (\<exists>m'. process_record d ps r m = Inr m'
              \<and> (rec_range r, map toupper (ref_allele r)) \<in> fst ` set m'
              \<and> ((rec_range r, map toupper (ref_allele r)) \<notin> fst ` set m
                  \<and> map toupper (ref_allele r) \<notin> map toupper ` set (alt_alleles r)
                 \<longrightarrow> ((rec_range r, map toupper (ref_allele r)),
                       \<lparr>is_ref = True, observation_count = obs_counts_of r ! 0\<rparr>) \<in> set m')))
   \<and> (valid_dna (map toupper (ref_allele r))
      \<and> (\<forall>a\<in>set (alt_alleles r). \<not> valid_dna (map toupper a))
    \<longrightarrow> process_record d ps r m = Inr m)"
proof (intro conjI impI)
  assume h: "sampleset_datasets svc sampleset = (s0, samples, ds1 @ d # ds2) \<and> ok s0
      \<and> datasets_loop svc pos ds1 [] = (s1, ans1) \<and> ok s1
      \<and> dataset_range_and_header svc d pos = (s2, rs1 @ r # rs2) \<and> ok s2
      \<and> records_loop d (range_str svc pos) rs1 [] = Inr m1
      \<and> \<not> valid_dna (map toupper (ref_allele r))"
  let ?e = "Status_Invalid ''invalid reference allele''
                   (d @ '' '' @ map toupper (ref_allele r) @ ''@'' @ range_str svc pos)"
  show pr: "process_record d (range_str svc pos) r m1 = Inl ?e"
    using h process_record_bad_ref by blast
  have rl: "records_loop d (range_str svc pos) (rs1 @ r # rs2) [] = Inl ?e"
    using h records_loop_fail[OF _ pr] by blast
  have "datasets_loop svc pos (d # ds2) ans1 = (?e, ans1)"
    using h rl by (intro datasets_loop_fail_here) simp_all
  moreover have "datasets_loop svc pos (ds1 @ d # ds2) [] = datasets_loop svc pos (d # ds2) ans1"
    using h datasets_loop_append by blast
  ultimately have "datasets_loop svc pos (ds1 @ d # ds2) [] = (?e, ans1)" by simp
  moreover have "sampleset_datasets svc sampleset = (s0, samples, ds1 @ d # ds2)" "ok s0"
    using h by simp_all
  ultimately show "discover_alleles svc sampleset pos ans0 = (?e, ans1)"
    using discover_alleles_resolved[of svc sampleset s0 samples "ds1 @ d # ds2" pos ans0]
    by (simp add: bad_Invalid)
next
  assume h: "valid_dna (map toupper (ref_allele r))
      \<and> (\<exists>a\<in>set (alt_alleles r). valid_dna (map toupper a))"
  let ?re = "((rec_range r, map toupper (ref_allele r)),
                             \<lparr>is_ref = True, observation_count = obs_counts_of r ! 0\<rparr>)"
  let ?m1 = "fst (alt_loop (rec_range r) (obs_counts_of r) (alt_alleles r) 1 (m, False))"
  show eq: "process_record d ps r m = Inr (map_insert ?re ?m1)"
    using h process_record_good_ref[of r d ps m] by simp
  have key: "(rec_range r, map toupper (ref_allele r)) \<in> fst ` set (map_insert ?re ?m1)"
    by (simp add: map_insert_keys)
  have fresh: "?re \<in> set (map_insert ?re ?m1)"
    if "(rec_range r, map toupper (ref_allele r)) \<notin> fst ` set m
          \<and> map toupper (ref_allele r) \<notin> map toupper ` set (alt_alleles r)"
  proof -
    have "fst ?re \<notin> fst ` set ?m1"
      using that by (auto simp: alt_loop_keys)
    then show ?thesis by (rule map_insert_fresh)
  qed
  show "\<exists>m'. process_record d ps r m = Inr m'
              \<and> (rec_range r, map toupper (ref_allele r)) \<in> fst ` set m'
              \<and> ((rec_range r, map toupper (ref_allele r)) \<notin> fst ` set m
                  \<and> map toupper (ref_allele r) \<notin> map toupper ` set (alt_alleles r)
                 \<longrightarrow> ?re \<in> set m')"
    using eq key fresh by blast
next
  assume h: "valid_dna (map toupper (ref_allele r))
      \<and> (\<forall>a\<in>set (alt_alleles r). \<not> valid_dna (map toupper a))"
  then show "process_record d ps r m = Inr m"
    using process_record_good_ref[of r d ps m] by simp
qed

text \<open>
  C7 does not hold of the code. A dataset holds a site split into two records with the same
  reference A; both references pass the DNA test and both records have a qualifying
  alternative allele. The tally of A is 3 in the first record and 1 in the second. The claim
  has the second record register A with \<open>is_ref\<close> true and the tally 1 (the merge rule would
  leave the sum 4). The code passes the entry to \<open>std::map::insert\<close>, which leaves the
  existing key alone, so A keeps the count 3. For the same reason a record whose alternative
  allele \<open>a\<close> uppercases to its reference A leaves A entered as an alternative allele, with
  \<open>is_ref\<close> false. This is the defect of C4.
\<close>

theorem repeated_reference_keeps_first_entry:
  "obs_counts_of (ex_record 100 ''A'' [''C''] [2, 4, 2, 2]) = [3, 1]
   \<and> obs_counts_of (ex_record 100 ''A'' [''G''] [2, 4, 4, 4]) = [1, 3]
   \<and> valid_dna (map toupper ''A'') \<and> valid_dna (map toupper ''G'')
   \<and> records_loop ''d1'' (ex_range_str (0, 0, 1000))
        [ex_record 100 ''A'' [''C''] [2, 4, 2, 2], ex_record 100 ''A'' [''G''] [2, 4, 4, 4]] []
      = Inr [(((0, 100, 101), ''A''), \<lparr>is_ref = True, observation_count = 3\<rparr>),
             (((0, 100, 101), ''C''), \<lparr>is_ref = False, observation_count = 1\<rparr>),
             (((0, 100, 101), ''G''), \<lparr>is_ref = False, observation_count = 3\<rparr>)]
   \<and> discover_alleles ex_svc_repeated_ref ''cohort'' (0, 0, 1000) []
      = (Status_OK,
         [(((0, 100, 101), ''A''), \<lparr>is_ref = True, observation_count = 3\<rparr>),
          (((0, 100, 101), ''C''), \<lparr>is_ref = False, observation_count = 1\<rparr>),
          (((0, 100, 101), ''G''), \<lparr>is_ref = False, observation_count = 3\<rparr>)])
   \<and> process_record ''d1'' (ex_range_str (0, 0, 1000)) (ex_record 100 ''A'' [''a''] [2, 4]) []
      = Inr [(((0, 100, 101), ''A''), \<lparr>is_ref = False, observation_count = 1\<rparr>)]"
  by code_simp

text \<open>
  C8, as amended. The tally is a 32-bit float. After the tally loop of a record, the count
  of each allele index within the record's range is the number of genotype values that are
  not the end-of-vector sentinel and decode to that index, capped at \<open>2^24 = 16777216\<close>: a
  call that decodes to the index adds exactly 1 as long as the count is below \<open>2^24\<close> and
  leaves the count at \<open>2^24\<close> once it is there; missing calls, sentinels and indices outside
  the range add nothing. For one record with reference A and alternative C and two diploid
  samples called (0,1) and (1,1), discovery reports A with \<open>is_ref\<close> true and count 1 and C
  with \<open>is_ref\<close> false and count 3.
\<close>

theorem observation_counts_tally:
  "(a < n_allele r \<longrightarrow>
      obs_counts_of r ! a
        = min (real (length (filter (\<lambda>g. g \<noteq> bcf_int32_vector_end \<and> bcf_gt_allele g = int a)
                               (genotypes r))))
              16777216
      \<and> obs_counts_of (r\<lparr>genotypes := genotypes r @ [g]\<rparr>) ! a
        = (if g \<noteq> bcf_int32_vector_end \<and> bcf_gt_allele g = int a \<and> obs_counts_of r ! a < 16777216
           then obs_counts_of r ! a + 1 else obs_counts_of r ! a))
   \<and> length (obs_counts_of r) = n_allele r
   \<and> discover_alleles ex_svc_AC ''cohort'' (0, 0, 1000) ans0
       = (Status_OK,
          [(((0, 100, 101), ''A''), \<lparr>is_ref = True, observation_count = 1\<rparr>),
           (((0, 100, 101), ''C''), \<lparr>is_ref = False, observation_count = 3\<rparr>)])"
proof -
  have "discover_alleles ex_svc_AC ''cohort'' (0, 0, 1000) []
       = (Status_OK,
          [(((0, 100, 101), ''A''), \<lparr>is_ref = True, observation_count = 1\<rparr>),
           (((0, 100, 101), ''C''), \<lparr>is_ref = False, observation_count = 3\<rparr>)])"
    by code_simp
  moreover have r: "sampleset_datasets ex_svc_AC ''cohort''
                      = (Status_OK, [''sample1'', ''sample2''], [''d1''])"
    by code_simp
  have "discover_alleles ex_svc_AC ''cohort'' (0, 0, 1000) ans0
          = discover_alleles ex_svc_AC ''cohort'' (0, 0, 1000) []"
    using discover_alleles_resolved[OF r ok_OK] by simp
  ultimately have ex: "discover_alleles ex_svc_AC ''cohort'' (0, 0, 1000) ans0
       = (Status_OK,
          [(((0, 100, 101), ''A''), \<lparr>is_ref = True, observation_count = 1\<rparr>),
           (((0, 100, 101), ''C''), \<lparr>is_ref = False, observation_count = 3\<rparr>)])"
    by simp
  have len: "length (obs_counts_of r) = n_allele r"
    by (simp add: obs_counts_of_def count_obs_length)
  have tally: "obs_counts_of r ! a
        = min (real (length (filter (\<lambda>g. g \<noteq> bcf_int32_vector_end \<and> bcf_gt_allele g = int a)
                               (genotypes r))))
              16777216
      \<and> obs_counts_of (r\<lparr>genotypes := genotypes r @ [g]\<rparr>) ! a
        = (if g \<noteq> bcf_int32_vector_end \<and> bcf_gt_allele g = int a \<and> obs_counts_of r ! a < 16777216
           then obs_counts_of r ! a + 1 else obs_counts_of r ! a)"
    if a: "a < n_allele r"
  proof -
    let ?c = "length (filter (\<lambda>g. g \<noteq> bcf_int32_vector_end \<and> bcf_gt_allele g = int a) (genotypes r))"
    have one: "obs_counts_of r ! a = min (real ?c) 16777216"
      using obs_counts_of_nth[OF a] .
    have "a < n_allele (r\<lparr>genotypes := genotypes r @ [g]\<rparr>)" using a by (simp add: n_allele_def)
    from obs_counts_of_nth[OF this]
    have two: "obs_counts_of (r\<lparr>genotypes := genotypes r @ [g]\<rparr>) ! a
                 = min (real (?c + (if g \<noteq> bcf_int32_vector_end \<and> bcf_gt_allele g = int a
                                    then 1 else 0))) 16777216"
      by simp
    have "obs_counts_of (r\<lparr>genotypes := genotypes r @ [g]\<rparr>) ! a
        = (if g \<noteq> bcf_int32_vector_end \<and> bcf_gt_allele g = int a \<and> obs_counts_of r ! a < 16777216
           then obs_counts_of r ! a + 1 else obs_counts_of r ! a)"
    proof (cases "g \<noteq> bcf_int32_vector_end \<and> bcf_gt_allele g = int a")
      case False
      then show ?thesis using one two by auto
    next
      case True
      show ?thesis
      proof (cases "?c < 16777216")
        case below: True
        then have "real ?c < 16777216" "real (?c + 1) \<le> 16777216" by simp_all
        then show ?thesis using one two True by (simp add: min_def)
      next
        case above: False
        then have "\<not> real ?c < 16777216" "\<not> real (?c + 1) \<le> 16777216" by simp_all
        then show ?thesis using one two True by (simp add: min_def)
      qed
    qed
    then show ?thesis using one by blast
  qed
  show ?thesis using tally len ex by blast
qed

text \<open>
  The record of the example, whose alternative allele C is called three times, and a fourth
  call of C appended to it.
\<close>

theorem observation_counts_tally_witness:
  "(1::nat) < n_allele (ex_record 100 ''A'' [''C''] [2, 4, 4, 4])
   \<and> obs_counts_of (ex_record 100 ''A'' [''C''] [2, 4, 4, 4]) ! 1 = 3
   \<and> obs_counts_of (ex_record 100 ''A'' [''C''] [2, 4, 4, 4]) ! 1
       = min (real (length (filter (\<lambda>g. g \<noteq> bcf_int32_vector_end \<and> bcf_gt_allele g = int 1)
                              (genotypes (ex_record 100 ''A'' [''C''] [2, 4, 4, 4])))))
             16777216
   \<and> obs_counts_of ((ex_record 100 ''A'' [''C''] [2, 4, 4, 4])
         \<lparr>genotypes := genotypes (ex_record 100 ''A'' [''C''] [2, 4, 4, 4]) @ [4]\<rparr>) ! 1
       = (if 4 \<noteq> bcf_int32_vector_end \<and> bcf_gt_allele 4 = int 1
             \<and> obs_counts_of (ex_record 100 ''A'' [''C''] [2, 4, 4, 4]) ! 1 < 16777216
          then obs_counts_of (ex_record 100 ''A'' [''C''] [2, 4, 4, 4]) ! 1 + 1
          else obs_counts_of (ex_record 100 ''A'' [''C''] [2, 4, 4, 4]) ! 1)"
proof -
  have n: "(1::nat) < n_allele (ex_record 100 ''A'' [''C''] [2, 4, 4, 4])" by code_simp
  have v: "obs_counts_of (ex_record 100 ''A'' [''C''] [2, 4, 4, 4]) ! 1 = 3" by code_simp
  show ?thesis
    using n v observation_counts_tally[of 1 "ex_record 100 ''A'' [''C''] [2, 4, 4, 4]" 4]
    by blast
qed

text \<open>
  The claim as first stated fails at \<open>2^24\<close>: in a record with 16777216 calls of the
  reference the count is 16777216, and with one call more, which also decodes to the
  reference, the count is still 16777216.
\<close>

theorem observation_count_saturates_counterexample:
  "bcf_gt_allele 2 = 0 \<and> 2 \<noteq> bcf_int32_vector_end
   \<and> genotypes (ex_record 100 ''A'' [''C''] (replicate 16777217 2)) = replicate 16777216 2 @ [2]
   \<and> obs_counts_of (ex_record 100 ''A'' [''C''] (replicate 16777216 2)) ! 0 = 16777216
   \<and> obs_counts_of (ex_record 100 ''A'' [''C''] (replicate 16777217 2)) ! 0 = 16777216"
proof -
  have a: "bcf_gt_allele 2 = 0 \<and> 2 \<noteq> bcf_int32_vector_end"
    by (simp add: bcf_gt_allele_def bcf_int32_vector_end_def)
  have "(16777217::nat) = Suc 16777216" by simp
  then have "replicate 16777217 (2::int) = replicate (Suc 16777216) 2" by (simp only:)
  then have b: "genotypes (ex_record 100 ''A'' [''C''] (replicate 16777217 2))
                  = replicate 16777216 2 @ [2]"
    by (simp only: ex_record_def bcf1.simps replicate_Suc replicate_app_Cons_same append_Nil2)
  have c: "obs_counts_of (ex_record 100 ''A'' [''C''] (replicate 16777216 2)) ! 0 = 16777216"
    using obs_counts_of_reference_replicate[of 100 "''A''" "[''C'']" 16777216] by simp
  have d: "obs_counts_of (ex_record 100 ''A'' [''C''] (replicate 16777217 2)) ! 0 = 16777216"
    using obs_counts_of_reference_replicate[of 100 "''A''" "[''C'']" 16777217] by simp
  show ?thesis using a b c d by blast
qed

text \<open>
  C10, as amended. The tally of a record runs over all genotype values of the record: when
  the values are the concatenation of the calls of its samples, the count of an allele is
  the number of its calls over all samples, whether or not a sample belongs to the requested
  sample set, capped at \<open>2^24 = 16777216\<close>, where the 32-bit float count stops growing, so
  that calls beyond that number are not counted. When all datasets are processed, the count
  of an allele in the returned set is the sum over the datasets of its count in the
  per-dataset map, and every entry of a per-dataset map carries such a tally of one of the
  dataset's records. The sample names that the sample set resolves to do not enter the result
  of \<open>discover_alleles\<close> at all: two services that resolve every sample set to the same status
  and the same datasets, but to different sample names, return the same status and the same
  discovered set.
\<close>

theorem discovery_ignores_sample_names:
  "(a < n_allele r \<longrightarrow>
      obs_counts_of (r\<lparr>genotypes := concat sample_calls\<rparr>) ! a
        = min (\<Sum>calls\<leftarrow>sample_calls.
                 real (length (filter (\<lambda>g. g \<noteq> bcf_int32_vector_end \<and> bcf_gt_allele g = int a)
                                 calls)))
              16777216)
   \<and> (sampleset_datasets svc sampleset = (s0, samples, datasets) \<and> ok s0
      \<and> datasets_loop svc pos datasets [] = (s1, ans) \<and> ok s1
      \<longrightarrow> snd (discover_alleles svc sampleset pos ans0) = ans
         \<and> (\<forall>k. count_of ans k = (\<Sum>d\<leftarrow>datasets. count_of (dataset_alleles svc pos d) k))
         \<and> (\<forall>d\<in>set datasets. \<forall>e\<in>set (dataset_alleles svc pos d).
               \<exists>r'\<in>set (snd (dataset_range_and_header svc d pos)). \<exists>a'<n_allele r'.
                  fst e = (rec_range r', map toupper ((ref_allele r' # alt_alleles r') ! a'))
                  \<and> observation_count (snd e) = obs_counts_of r' ! a'))
   \<and> discover_alleles (svc\<lparr>sampleset_datasets := \<lambda>x. (resolved x, samples1 x, datasets' x)\<rparr>)
         sampleset pos ans0
       = discover_alleles (svc\<lparr>sampleset_datasets := \<lambda>x. (resolved x, samples2 x, datasets' x)\<rparr>)
           sampleset pos ans0"
proof -
  have t: "obs_counts_of (r\<lparr>genotypes := concat sample_calls\<rparr>) ! a
        = min (\<Sum>calls\<leftarrow>sample_calls.
                 real (length (filter (\<lambda>g. g \<noteq> bcf_int32_vector_end \<and> bcf_gt_allele g = int a)
                                 calls)))
              16777216"
    if "a < n_allele r"
  proof -
    have "a < n_allele (r\<lparr>genotypes := concat sample_calls\<rparr>)" using that by (simp add: n_allele_def)
    from obs_counts_of_nth[OF this] show ?thesis by (simp add: length_filter_concat)
  qed
  have tie: "snd (discover_alleles svc sampleset pos ans0) = ans
         \<and> (\<forall>k. count_of ans k = (\<Sum>d\<leftarrow>datasets. count_of (dataset_alleles svc pos d) k))
         \<and> (\<forall>d\<in>set datasets. \<forall>e\<in>set (dataset_alleles svc pos d).
               \<exists>r'\<in>set (snd (dataset_range_and_header svc d pos)). \<exists>a'<n_allele r'.
                  fst e = (rec_range r', map toupper ((ref_allele r' # alt_alleles r') ! a'))
                  \<and> observation_count (snd e) = obs_counts_of r' ! a')"
    if h: "sampleset_datasets svc sampleset = (s0, samples, datasets) \<and> ok s0
      \<and> datasets_loop svc pos datasets [] = (s1, ans) \<and> ok s1"
  proof -
    have res: "sampleset_datasets svc sampleset = (s0, samples, datasets)" "ok s0"
      and loop: "datasets_loop svc pos datasets [] = (s1, ans)" "ok s1"
      using h by simp_all
    have a: "snd (discover_alleles svc sampleset pos ans0) = ans"
      using discover_alleles_resolved[OF res, of pos ans0] loop by (simp add: bad_def)
    have "count_of ans k = count_of [] k + (\<Sum>d\<leftarrow>datasets. count_of (dataset_alleles svc pos d) k)"
      for k
      using datasets_loop_count[OF loop] by simp
    then have b: "\<forall>k. count_of ans k = (\<Sum>d\<leftarrow>datasets. count_of (dataset_alleles svc pos d) k)"
      by (simp add: count_of_def)
    show ?thesis using a b dataset_alleles_entries by blast
  qed
  have l: "datasets_loop (svc\<lparr>sampleset_datasets := f\<rparr>) pos ds m
            = datasets_loop (svc\<lparr>sampleset_datasets := g\<rparr>) pos ds m" for f g ds m
    by (rule datasets_loop_cong) simp_all
  have ind: "discover_alleles (svc\<lparr>sampleset_datasets := \<lambda>x. (resolved x, samples1 x, datasets' x)\<rparr>)
         sampleset pos ans0
       = discover_alleles (svc\<lparr>sampleset_datasets := \<lambda>x. (resolved x, samples2 x, datasets' x)\<rparr>)
           sampleset pos ans0"
    using l[of "\<lambda>x. (resolved x, samples1 x, datasets' x)" "datasets' sampleset" "[]"
              "\<lambda>x. (resolved x, samples2 x, datasets' x)"]
    by (simp add: discover_alleles_def split: prod.splits)
  show ?thesis using t tie ind by blast
qed

text \<open>
  Two samples with the calls (0,1) and (1,1): the count of allele 1 is the sum over both
  samples, and it is the count of C in the set that discovery returns for this record.
\<close>

theorem discovery_ignores_sample_names_witness:
  "(1::nat) < n_allele (ex_record 100 ''A'' [''C''] [])
   \<and> obs_counts_of ((ex_record 100 ''A'' [''C''] [])\<lparr>genotypes := concat [[2, 4], [4, 4]]\<rparr>) ! 1 = 3
   \<and> obs_counts_of ((ex_record 100 ''A'' [''C''] [])\<lparr>genotypes := concat [[2, 4], [4, 4]]\<rparr>) ! 1
       = min (\<Sum>calls\<leftarrow>[[2, 4], [4, 4]].
                 real (length (filter (\<lambda>g. g \<noteq> bcf_int32_vector_end \<and> bcf_gt_allele g = int 1)
                                 calls)))
             16777216
   \<and> sampleset_datasets ex_svc_AC ''cohort'' = (Status_OK, [''sample1'', ''sample2''], [''d1''])
   \<and> datasets_loop ex_svc_AC (0, 0, 1000) [''d1''] []
      = (Status_OK,
         [(((0, 100, 101), ''A''), \<lparr>is_ref = True, observation_count = 1\<rparr>),
          (((0, 100, 101), ''C''), \<lparr>is_ref = False, observation_count = 3\<rparr>)])
   \<and> count_of [(((0, 100, 101), ''A''), \<lparr>is_ref = True, observation_count = 1\<rparr>),
                (((0, 100, 101), ''C''), \<lparr>is_ref = False, observation_count = 3\<rparr>)]
        ((0, 100, 101), ''C'')
      = (\<Sum>d\<leftarrow>[''d1'']. count_of (dataset_alleles ex_svc_AC (0, 0, 1000) d) ((0, 100, 101), ''C''))
   \<and> count_of [(((0, 100, 101), ''A''), \<lparr>is_ref = True, observation_count = 1\<rparr>),
                (((0, 100, 101), ''C''), \<lparr>is_ref = False, observation_count = 3\<rparr>)]
        ((0, 100, 101), ''C'') = 3"
proof -
  have n: "(1::nat) < n_allele (ex_record 100 ''A'' [''C''] [])" by code_simp
  have v: "obs_counts_of ((ex_record 100 ''A'' [''C''] [])\<lparr>genotypes := concat [[2, 4], [4, 4]]\<rparr>) ! 1 = 3"
    by code_simp
  have s: "sampleset_datasets ex_svc_AC ''cohort'' = (Status_OK, [''sample1'', ''sample2''], [''d1''])"
    by code_simp
  have o: "ok Status_OK" by code_simp
  have l: "datasets_loop ex_svc_AC (0, 0, 1000) [''d1''] []
      = (Status_OK,
         [(((0, 100, 101), ''A''), \<lparr>is_ref = True, observation_count = 1\<rparr>),
          (((0, 100, 101), ''C''), \<lparr>is_ref = False, observation_count = 3\<rparr>)])"
    by code_simp
  have c: "count_of [(((0, 100, 101), ''A''), \<lparr>is_ref = True, observation_count = 1\<rparr>),
                (((0, 100, 101), ''C''), \<lparr>is_ref = False, observation_count = 3\<rparr>)]
        ((0, 100, 101), ''C'') = 3"
    by code_simp
  show ?thesis
    using n v s o l c
      discovery_ignores_sample_names[where a = 1 and r = "ex_record 100 ''A'' [''C''] []"
        and sample_calls = "[[2, 4], [4, 4]]" and svc = ex_svc_AC and sampleset = "''cohort''"
        and ?s0.0 = Status_OK and samples = "[''sample1'', ''sample2'']" and datasets = "[''d1'']"
        and pos = "(0, 0, 1000)" and ?s1.0 = Status_OK
        and ans = "[(((0, 100, 101), ''A''), \<lparr>is_ref = True, observation_count = 1\<rparr>),
                    (((0, 100, 101), ''C''), \<lparr>is_ref = False, observation_count = 3\<rparr>)]"]
    by blast
qed

text \<open>
  The claim as first stated fails at \<open>2^24\<close>: with 8388608 diploid samples that are all
  called (0,0) the count of the reference is 16777216, and with one such sample more it is
  still 16777216, so the calls of that sample are not counted.
\<close>

theorem tally_misses_late_samples_counterexample:
  "bcf_gt_allele 2 = 0 \<and> 2 \<noteq> bcf_int32_vector_end
   \<and> concat (replicate 8388609 [2, 2]) = concat (replicate 8388608 [2, 2]) @ [2, (2::int)]
   \<and> obs_counts_of (ex_record 100 ''A'' [''C''] (concat (replicate 8388608 [2, 2]))) ! 0 = 16777216
   \<and> obs_counts_of (ex_record 100 ''A'' [''C''] (concat (replicate 8388609 [2, 2]))) ! 0 = 16777216"
proof -
  have a: "bcf_gt_allele 2 = 0 \<and> 2 \<noteq> bcf_int32_vector_end"
    by (simp add: bcf_gt_allele_def bcf_int32_vector_end_def)
  have "(8388609::nat) = Suc 8388608" by simp
  then have "replicate 8388609 [2, (2::int)] = replicate (Suc 8388608) [2, 2]" by (simp only:)
  then have b: "concat (replicate 8388609 [2, 2]) = concat (replicate 8388608 [2, 2]) @ [2, (2::int)]"
    by (simp only: replicate_Suc replicate_append_same[symmetric] concat_append concat.simps append_Nil2)
  have c: "obs_counts_of (ex_record 100 ''A'' [''C''] (concat (replicate 8388608 [2, 2]))) ! 0 = 16777216"
    using obs_counts_of_reference_samples[of 100 "''A''" "[''C'']" 8388608] by simp
  have d: "obs_counts_of (ex_record 100 ''A'' [''C''] (concat (replicate 8388609 [2, 2]))) ! 0 = 16777216"
    using obs_counts_of_reference_samples[of 100 "''A''" "[''C'']" 8388609] by simp
  show ?thesis using a b c d by blast
qed

section \<open>Claims about the genotyping pipeline\<close>

lemma genotype_sites_complete:
  assumes "sampleset_datasets svc sampleset = (s0, samples, datasets)" "ok s0"
    "open_output svc io samples filename = None"
    "run io filename sched (init n) = Some p" "drain_i p = n"
  shows "genotype_sites svc io sampleset n filename sched =
           Some (if bad (status_s p) then status_s p
                 else if bcf_close_ok io then Status_OK else Status_IOError ''bcf_close'' filename,
                 outfile p)"
  using assms by (simp add: genotype_sites_def bad_def)

text \<open>
  C1, as amended. Whenever a call of \<open>genotype_sites\<close> runs to the end of the drain loop and
  the task of some site returned a failure of the genotyper, the call returns an error, and
  that error was recorded at the first site \<open>m\<close>, in site order, with a bad outcome: all
  tasks below \<open>m\<close> returned OK and their records were written; task \<open>m\<close> ran the genotyper;
  and the returned status is the failure of task \<open>m\<close>, the lowest site that actually failed,
  unless task \<open>m\<close> succeeded and the write of its record failed, in which case it is the I/O
  error of that write. No schedule changes this, and a cancelled task is never at \<open>m\<close>: every
  cancelled task lies above \<open>m\<close>, and tasks are cancelled only after a genotyper failure.
\<close>

theorem genotype_sites_first_error:
  assumes pre: "sampleset_datasets svc sampleset = (s0, samples, datasets)" "ok s0"
      "open_output svc io samples filename = None"
    and run: "run io filename sched (init n) = Some p" and fin: "drain_i p = n"
    and failed: "i < n" "statuses p ! i = Finished e" "bad e"
  shows "genotype_sites svc io sampleset n filename sched = Some (status_s p, outfile p)
         \<and> bad (status_s p)
         \<and> (\<exists>m<n. (\<forall>j<m. statuses p ! j = Finished (fst (genotype_site io j))
                       \<and> ok (fst (genotype_site io j)) \<and> bcf_write_ok io j)
               \<and> statuses p ! m = Finished (fst (genotype_site io m))
               \<and> (if bad (fst (genotype_site io m)) then status_s p = fst (genotype_site io m)
                   else \<not> bcf_write_ok io m \<and> status_s p = Status_IOError ''bcf_write'' filename)
               \<and> (\<forall>j<n. statuses p ! j = Cancelled \<longrightarrow> m < j \<and> bad (fst (genotype_site io m))))"
proof -
  have inv: "pipe_inv io filename n p" using run by (rule reachable_inv)
  then have T: "inv_tasks io n p" and D: "inv_drain io filename p" by (simp_all add: pipe_inv_def)
  have b: "bad (status_s p)"
  proof (rule ccontr)
    assume "\<not> bad (status_s p)"
    then have "written_prefix io p n" using D fin by (simp add: inv_drain_def bad_def)
    then have "statuses p ! i = Finished (fst (genotype_site io i))" "ok (fst (genotype_site io i))"
      using failed(1) by (simp_all add: written_prefix_def)
    then show False using failed(2,3) by (simp add: bad_def)
  qed
  have ret: "genotype_sites svc io sampleset n filename sched = Some (status_s p, outfile p)"
    using genotype_sites_complete[OF pre run fin] b by simp
  from b obtain m where m: "m < n" "first_error io filename p m"
    using D fin by (auto simp: inv_drain_def)
  have wp: "\<forall>j<m. statuses p ! j = Finished (fst (genotype_site io j))
                       \<and> ok (fst (genotype_site io j)) \<and> bcf_write_ok io j"
    using m(2) by (simp add: first_error_def written_prefix_def)
  have fm: "statuses p ! m = Finished (fst (genotype_site io m))"
    using m(2) by (simp add: first_error_def)
  have err: "if bad (fst (genotype_site io m)) then status_s p = fst (genotype_site io m)
                   else \<not> bcf_write_ok io m \<and> status_s p = Status_IOError ''bcf_write'' filename"
    using m(2) by (simp add: first_error_def split: if_splits)
  have canc: "\<forall>j<n. statuses p ! j = Cancelled \<longrightarrow> m < j \<and> bad (fst (genotype_site io m))"
  proof (intro allI impI)
    fix j assume j: "j < n" "statuses p ! j = Cancelled"
    then have ab: "abort p" using T by (simp add: inv_tasks_def)
    have "\<not> j < m" using wp j(2) by auto
    moreover have "j \<noteq> m" using fm j(2) by auto
    moreover have "bad (fst (genotype_site io m))"
      using m(2) ab by (auto simp: first_error_def split: if_splits)
    ultimately show "m < j \<and> bad (fst (genotype_site io m))" by simp
  qed
  show ?thesis using ret b m(1) wp fm err canc by blast
qed

text \<open>
  Five sites with failures at sites 1 and 3, task 3 returning first and task 4 cancelled: the
  call returns the failure of site 1 after writing the record of site 0.
\<close>

theorem genotype_sites_first_error_witness:
  "run (ex_io [1, 3] []) ''out.bcf'' ex_sched_two_failures (init 5) = Some ex_final_two_failures
   \<and> drain_i ex_final_two_failures = 5
   \<and> statuses ex_final_two_failures ! 3 = Finished (Status_Failure ''genotype_site'' ''3'')
   \<and> statuses ex_final_two_failures ! 4 = Cancelled
   \<and> status_s ex_final_two_failures = Status_Failure ''genotype_site'' ''1''
   \<and> genotype_sites ex_svc_sites (ex_io [1, 3] []) ''cohort'' 5 ''out.bcf'' ex_sched_two_failures
       = Some (status_s ex_final_two_failures, outfile ex_final_two_failures)
   \<and> bad (status_s ex_final_two_failures)"
proof -
  have s: "sampleset_datasets ex_svc_sites ''cohort'' = (Status_OK, [''sample1'', ''sample2''], [''d1''])"
    by code_simp
  have o: "ok Status_OK" by code_simp
  have h: "open_output ex_svc_sites (ex_io [1, 3] []) [''sample1'', ''sample2''] ''out.bcf'' = None"
    by code_simp
  have r: "run (ex_io [1, 3] []) ''out.bcf'' ex_sched_two_failures (init 5) = Some ex_final_two_failures"
    by code_simp
  have f: "drain_i ex_final_two_failures = 5" by code_simp
  have i: "(3::nat) < 5" by simp
  have t: "statuses ex_final_two_failures ! 3 = Finished (Status_Failure ''genotype_site'' ''3'')"
    by code_simp
  have b: "bad (Status_Failure ''genotype_site'' ''3'')" by code_simp
  have c: "statuses ex_final_two_failures ! 4 = Cancelled" by code_simp
  have e: "status_s ex_final_two_failures = Status_Failure ''genotype_site'' ''1''" by code_simp
  from genotype_sites_first_error[OF s o h r f i t b]
  have "genotype_sites ex_svc_sites (ex_io [1, 3] []) ''cohort'' 5 ''out.bcf'' ex_sched_two_failures
          = Some (status_s ex_final_two_failures, outfile ex_final_two_failures)
        \<and> bad (status_s ex_final_two_failures)"
    by blast
  then show ?thesis using r f t c e by blast
qed

text \<open>
  The claim as first stated fails when a write fails below the lowest failing site: with two
  sites, the write of site 0 failing and the genotyper failing on site 1, the only task that
  failed is task 1, yet the call returns the I/O error of the write.
\<close>

theorem genotype_sites_lowest_failure_counterexample:
  "genotype_sites ex_svc_sites (ex_io [1] [0]) ''cohort'' 2 ''out.bcf'' ex_sched_write_fail
     = Some (Status_IOError ''bcf_write'' ''out.bcf'', [])
   \<and> map_option statuses (run (ex_io [1] [0]) ''out.bcf'' ex_sched_write_fail (init 2))
     = Some [Finished Status_OK, Finished (Status_Failure ''genotype_site'' ''1'')]
   \<and> ok Status_OK \<and> bad (Status_Failure ''genotype_site'' ''1'')
   \<and> Status_IOError ''bcf_write'' ''out.bcf'' \<noteq> Status_Failure ''genotype_site'' ''1''"
  by code_simp

text \<open>
  C2. In every state that the tasks and the drain loop can reach, under any schedule, the
  output file holds exactly the records of the sites \<open>0, ..., k - 1\<close> for some \<open>k\<close> not beyond
  the drain index, in ascending site order, and each of these sites was genotyped
  successfully. The same holds for the file that a call of \<open>genotype_sites\<close> leaves behind.
\<close>

theorem genotype_sites_output_in_site_order:
  "(run io filename sched (init n) = Some p \<longrightarrow>
      (\<exists>k\<le>drain_i p. map Some (outfile p) = map (\<lambda>j. snd (genotype_site io j)) [0..<k]
           \<and> (\<forall>j<k. ok (fst (genotype_site io j)))))
   \<and> (genotype_sites svc io sampleset n filename sched = Some (st, out) \<longrightarrow>
      (\<exists>k\<le>n. map Some out = map (\<lambda>j. snd (genotype_site io j)) [0..<k]
           \<and> (\<forall>j<k. ok (fst (genotype_site io j)))))"
proof -
  have reach: "\<exists>k\<le>drain_i q. map Some (outfile q) = map (\<lambda>j. snd (genotype_site io j)) [0..<k]
           \<and> (\<forall>j<k. ok (fst (genotype_site io j)))"
    if run: "run io filename sched (init n) = Some q" for q
  proof -
    have inv: "pipe_inv io filename n q" using run by (rule reachable_inv)
    then have D: "inv_drain io filename q" by (simp add: pipe_inv_def)
    show ?thesis
    proof (cases "ok (status_s q)")
      case True
      then have "written_prefix io q (drain_i q)" using D by (simp add: inv_drain_def)
      then show ?thesis by (intro exI[of _ "drain_i q"]) (simp add: written_prefix_def)
    next
      case False
      then obtain m where m: "m < drain_i q" "first_error io filename q m"
        using D by (auto simp: inv_drain_def bad_def)
      then have "written_prefix io q m" by (simp add: first_error_def)
      then show ?thesis using m(1) by (intro exI[of _ m]) (simp add: written_prefix_def)
    qed
  qed
  have whole: "\<exists>k\<le>n. map Some out = map (\<lambda>j. snd (genotype_site io j)) [0..<k]
           \<and> (\<forall>j<k. ok (fst (genotype_site io j)))"
    if g: "genotype_sites svc io sampleset n filename sched = Some (st, out)"
  proof (cases "out = []")
    case True
    then show ?thesis by (intro exI[of _ 0]) simp
  next
    case False
    with g obtain q where q: "run io filename sched (init n) = Some q" "out = outfile q"
      by (auto simp: genotype_sites_def split: prod.splits if_splits option.splits)
    have "drain_i q \<le> n" using reachable_inv[OF q(1)] by (simp add: pipe_inv_def inv_tasks_def)
    then show ?thesis using reach[OF q(1)] q(2) by (meson order_trans)
  qed
  show ?thesis using reach whole by blast
qed

text \<open>
  Three sites whose tasks return in the order 2, 1, 0: the file holds the records of the
  sites 0, 1, 2 in that order.
\<close>

theorem genotype_sites_output_in_site_order_witness:
  "run (ex_io [] []) ''out.bcf'' ex_sched_reversed (init 3) = Some ex_final_reversed
   \<and> genotype_sites ex_svc_sites (ex_io [] []) ''cohort'' 3 ''out.bcf'' ex_sched_reversed
       = Some (Status_OK, [ex_site 0, ex_site 1, ex_site 2])
   \<and> (\<exists>k\<le>drain_i ex_final_reversed.
         map Some (outfile ex_final_reversed) = map (\<lambda>j. snd (genotype_site (ex_io [] []) j)) [0..<k]
         \<and> (\<forall>j<k. ok (fst (genotype_site (ex_io [] []) j))))
   \<and> (\<exists>k\<le>3. map Some [ex_site 0, ex_site 1, ex_site 2]
               = map (\<lambda>j. snd (genotype_site (ex_io [] []) j)) [0..<k]
         \<and> (\<forall>j<k. ok (fst (genotype_site (ex_io [] []) j))))"
proof -
  have r: "run (ex_io [] []) ''out.bcf'' ex_sched_reversed (init 3) = Some ex_final_reversed"
    by code_simp
  have g: "genotype_sites ex_svc_sites (ex_io [] []) ''cohort'' 3 ''out.bcf'' ex_sched_reversed
       = Some (Status_OK, [ex_site 0, ex_site 1, ex_site 2])"
    by code_simp
  show ?thesis
    using r g genotype_sites_output_in_site_order[of "ex_io [] []" "''out.bcf''" ex_sched_reversed 3
        ex_final_reversed ex_svc_sites "''cohort''" Status_OK "[ex_site 0, ex_site 1, ex_site 2]"]
    by blast
qed

text \<open>
  C9. Let the drain loop reach a site whose task succeeded while no error is recorded, and let
  the write of that record fail. Then, whatever happens afterwards: the recorded and finally
  returned status is the I/O error of that write; \<open>abort\<close> stays clear; no task is ever
  cancelled; a task that has not started yet enters the genotyper when it starts; nothing more
  is written to the output file; and once the drain loop is through, every task has returned
  from the genotyper with the genotyper's own status.
\<close>

theorem write_failure_does_not_abort:
  assumes pre: "sampleset_datasets svc sampleset = (s0, samples, datasets)" "ok s0"
      "open_output svc io samples filename = None"
    and run1: "run io filename evs1 (init n) = Some p1"
    and i: "drain_i p1 < n" "ok (status_s p1)" "statuses p1 ! drain_i p1 = Finished ls" "ok ls"
      "\<not> bcf_write_ok io (drain_i p1)"
    and run2: "run io filename (Drain # evs2) p1 = Some p2"
  shows "status_s p2 = Status_IOError ''bcf_write'' filename \<and> \<not> abort p2
         \<and> outfile p2 = outfile p1
         \<and> (\<forall>j<n. statuses p2 ! j \<noteq> Cancelled)
         \<and> (\<forall>j<n. statuses p2 ! j = Pending \<longrightarrow>
               step io filename (Start j) p2 = Some (p2\<lparr>statuses := (statuses p2)[j := Running]\<rparr>))
         \<and> (drain_i p2 = n \<longrightarrow>
               (\<forall>j<n. statuses p2 ! j = Finished (fst (genotype_site io j)))
               \<and> genotype_sites svc io sampleset n filename (evs1 @ Drain # evs2)
                   = Some (Status_IOError ''bcf_write'' filename, outfile p1))"
proof -
  have inv1: "pipe_inv io filename n p1" using run1 by (rule reachable_inv)
  then have T1: "inv_tasks io n p1" and D1: "inv_drain io filename p1" by (simp_all add: pipe_inv_def)
  have len: "length (statuses p1) = n" using T1 by (simp add: inv_tasks_def)
  have na: "\<not> abort p1" using D1 i(2) by (auto simp: inv_drain_def bad_def)
  from run2 obtain q where q: "step io filename Drain p1 = Some q" "run io filename evs2 q = Some p2"
    by (auto split: option.splits)
  have q': "status_s q = Status_IOError ''bcf_write'' filename \<and> abort q = abort p1
            \<and> outfile q = outfile p1"
    using q(1) i len by (auto simp: Let_def bad_def split: if_splits option.splits)
  then have bq: "bad (status_s q)" by (simp add: bad_IOError)
  have fr: "status_s p2 = status_s q \<and> abort p2 = abort q \<and> outfile p2 = outfile q"
    using run_bad_frozen[OF bq q(2)] .
  have inv2: "pipe_inv io filename n p2"
    using run_inv[OF inv1 run2] .
  then have T2: "inv_tasks io n p2" by (simp add: pipe_inv_def)
  have na2: "\<not> abort p2" using fr q' na by simp
  have nc: "\<forall>j<n. statuses p2 ! j \<noteq> Cancelled" using T2 na2 by (auto simp: inv_tasks_def)
  have len2: "length (statuses p2) = n" using T2 by (simp add: inv_tasks_def)
  have st: "\<forall>j<n. statuses p2 ! j = Pending \<longrightarrow>
               step io filename (Start j) p2 = Some (p2\<lparr>statuses := (statuses p2)[j := Running]\<rparr>)"
    using na2 len2 by simp
  have complete: "\<forall>j<n. statuses p2 ! j = Finished (fst (genotype_site io j))"
    if "drain_i p2 = n"
  proof (intro allI impI)
    fix j assume "j < n"
    then have "future_get (statuses p2 ! j) \<noteq> None" using T2 that by (simp add: inv_tasks_def)
    moreover have "statuses p2 ! j \<noteq> Cancelled" using nc \<open>j < n\<close> by simp
    ultimately obtain l where l: "statuses p2 ! j = Finished l" by (cases "statuses p2 ! j") auto
    then show "statuses p2 ! j = Finished (fst (genotype_site io j))"
      using T2 \<open>j < n\<close> by (simp add: inv_tasks_def)
  qed
  have whole: "genotype_sites svc io sampleset n filename (evs1 @ Drain # evs2)
                   = Some (Status_IOError ''bcf_write'' filename, outfile p1)"
    if "drain_i p2 = n"
  proof -
    have "run io filename (evs1 @ Drain # evs2) (init n) = Some p2"
      using run1 run2 by (simp add: run_append)
    from genotype_sites_complete[OF pre this that] show ?thesis
      using fr q' bq by simp
  qed
  show ?thesis using fr q' na2 nc st complete whole by simp
qed

text \<open>
  Three sites; the write of site 0 fails while the tasks of sites 1 and 2 are still pending.
  Both tasks run the genotyper afterwards, the call returns the I/O error and the file stays
  empty.
\<close>

theorem write_failure_does_not_abort_witness:
  "run (ex_io [] [0]) ''out.bcf'' [Start 0, Finish 0] (init 3) = Some ex_before_write
   \<and> statuses ex_before_write = [Finished Status_OK, Pending, Pending]
   \<and> \<not> bcf_write_ok (ex_io [] [0]) (drain_i ex_before_write)
   \<and> run (ex_io [] [0]) ''out.bcf'' (Drain # ex_sched_after_write) ex_before_write = Some ex_after_write
   \<and> status_s ex_after_write = Status_IOError ''bcf_write'' ''out.bcf''
   \<and> \<not> abort ex_after_write
   \<and> statuses ex_after_write = [Finished Status_OK, Finished Status_OK, Finished Status_OK]
   \<and> genotype_sites ex_svc_sites (ex_io [] [0]) ''cohort'' 3 ''out.bcf''
        ([Start 0, Finish 0] @ Drain # ex_sched_after_write)
       = Some (Status_IOError ''bcf_write'' ''out.bcf'', outfile ex_before_write)
   \<and> outfile ex_before_write = []"
proof -
  have s: "sampleset_datasets ex_svc_sites ''cohort'' = (Status_OK, [''sample1'', ''sample2''], [''d1''])"
    by code_simp
  have o: "ok Status_OK" by code_simp
  have h: "open_output ex_svc_sites (ex_io [] [0]) [''sample1'', ''sample2''] ''out.bcf'' = None"
    by code_simp
  have r1: "run (ex_io [] [0]) ''out.bcf'' [Start 0, Finish 0] (init 3) = Some ex_before_write"
    by code_simp
  have d: "drain_i ex_before_write < 3" by code_simp
  have k: "ok (status_s ex_before_write)" by code_simp
  have t: "statuses ex_before_write ! drain_i ex_before_write = Finished Status_OK" by code_simp
  have w: "\<not> bcf_write_ok (ex_io [] [0]) (drain_i ex_before_write)" by code_simp
  have r2: "run (ex_io [] [0]) ''out.bcf'' (Drain # ex_sched_after_write) ex_before_write
              = Some ex_after_write"
    by code_simp
  have f: "drain_i ex_after_write = 3" by code_simp
  have ss: "statuses ex_before_write = [Finished Status_OK, Pending, Pending]" by code_simp
  have sa: "statuses ex_after_write = [Finished Status_OK, Finished Status_OK, Finished Status_OK]"
    by code_simp
  have e: "outfile ex_before_write = []" by code_simp
  from write_failure_does_not_abort[OF s o h r1 d k t o w r2] f
  have "status_s ex_after_write = Status_IOError ''bcf_write'' ''out.bcf''
        \<and> \<not> abort ex_after_write
        \<and> genotype_sites ex_svc_sites (ex_io [] [0]) ''cohort'' 3 ''out.bcf''
            ([Start 0, Finish 0] @ Drain # ex_sched_after_write)
           = Some (Status_IOError ''bcf_write'' ''out.bcf'', outfile ex_before_write)"
    by blast
  then show ?thesis using r1 ss w r2 sa e by blast
qed

end
